theory Spec2Isabelle
  imports Complex_Main
begin

section \<open>WebLayer3D: numbers, bounds and vectors\<close>

text \<open>
  The source is \<^verbatim>\<open>src/three-web-layer.ts\<close>. JavaScript numbers are idealised as
  real numbers: no rounding, no NaN and no infinities. Where the source would compute with
  \<^verbatim>\<open>undefined\<close> fieldsOf (NaN arithmetic) the model says so explicitly.
\<close>

record bounds =
  bleft :: real
  btop :: real
  bwidth :: real
  bheight :: real

record vec3 =
  vx :: real
  vy :: real
  vz :: real

definition ZERO_BOUNDS :: bounds where
  "ZERO_BOUNDS = \<lparr>bleft = 0, btop = 0, bwidth = 0, bheight = 0\<rparr>"

definition DEFAULT_LAYER_SEPARATION :: real where
  "DEFAULT_LAYER_SEPARATION = 5 / 1000"

definition DEFAULT_PIXEL_DIMENSIONS :: real where
  "DEFAULT_PIXEL_DIMENSIONS = 1 / 1000"

definition vset :: "real \<Rightarrow> real \<Rightarrow> real \<Rightarrow> vec3" where
  "vset a b c = \<lparr>vx = a, vy = b, vz = c\<rparr>"

text \<open>\<^verbatim>\<open>a || b\<close> on an optional number: \<^verbatim>\<open>undefined\<close> and \<^verbatim>\<open>0\<close> are falsy.\<close>

definition num_or :: "real option \<Rightarrow> real \<Rightarrow> real" where
  "num_or a d = (case a of None \<Rightarrow> d | Some v \<Rightarrow> (if v = 0 then d else v))"

section \<open>Layer nodes\<close>

datatype error = RootOnlyError | TypeError | NaNArithmetic

text \<open>
  One hover-depth slot of a state: \<^verbatim>\<open>{ texture, bounds }\<close>. A texture is named by a
  number; \<^verbatim>\<open>texture: null\<close> is \<open>None\<close>. The bounds object starts as \<^verbatim>\<open>{}\<close>,
  which is \<open>None\<close>.
\<close>

record slot =
  texture :: "nat option"
  sbounds :: "bounds option"

record lfields =
  lid :: nat
  element :: nat
  childLayers :: "nat list"
  needsRasterize :: bool
  useDOMLayout :: bool
  contentTargetOpacity :: real
  target_position :: vec3
  target_scale :: vec3
  contentTarget_position :: vec3
  contentTarget_scale :: vec3
  lastTargetPosition :: vec3
  lastContentTargetScale :: vec3
  position :: vec3
  content_position :: vec3
  content_scale :: vec3
  hover :: nat
  hoverDepth :: "int option"
  states :: "(string \<times> slot list) list"
  state :: string
  pixelRatio :: real
  needsRemoval :: bool
  level :: nat
  layerSeparation :: "real option"
  opacity :: real
  meshVisible :: bool
  meshParent :: bool
  materialMap :: "nat option"
  resizeObserver :: bool
  options_pixelRatio :: "real option"
  scale :: vec3
  mutationObserver :: bool
  rootLayer :: nat

subsection \<open>The texture and bounds getters\<close>

text \<open>
  \<^verbatim>\<open>this._states[this.state] || this._states['']\<close>, then
  \<^verbatim>\<open>state[this.hover] || state[0]\<close>. An array (also an empty one) and a slot object are
  truthy. Reading a property of \<^verbatim>\<open>undefined\<close> throws a TypeError. Class names that are
  also property names of \<^verbatim>\<open>Object.prototype\<close> are outside the model.
\<close>

definition nth_opt :: "'a list \<Rightarrow> nat \<Rightarrow> 'a option" where
  "nth_opt xs i = (if i < length xs then Some (xs ! i) else None)"

definition current_hoverStates :: "lfields \<Rightarrow> slot list option" where
  "current_hoverStates l =
     (case map_of (states l) (state l) of
        Some hs \<Rightarrow> Some hs
      | None \<Rightarrow> map_of (states l) [])"

definition current_slot :: "lfields \<Rightarrow> error + slot" where
  "current_slot l =
     (case current_hoverStates l of
        None \<Rightarrow> Inl TypeError
      | Some hs \<Rightarrow>
          (case nth_opt hs (hover l) of
             Some s \<Rightarrow> Inr s
           | None \<Rightarrow> (case nth_opt hs 0 of Some s \<Rightarrow> Inr s | None \<Rightarrow> Inl TypeError)))"

definition texture_getter :: "lfields \<Rightarrow> error + nat option" where
  "texture_getter l = (case current_slot l of Inl e \<Rightarrow> Inl e | Inr s \<Rightarrow> Inr (texture s))"

definition bounds_getter :: "lfields \<Rightarrow> error + bounds option" where
  "bounds_getter l = (case current_slot l of Inl e \<Rightarrow> Inl e | Inr s \<Rightarrow> Inr (sbounds s))"

subsection \<open>Target layout\<close>

text \<open>
  \<^verbatim>\<open>_updateTargetLayout\<close>. \<open>parent\<close> holds the parent when it is a layer; otherwise
  the source takes \<open>ZERO_BOUNDS\<close>. A bounds object that is still \<^verbatim>\<open>{}\<close> would give
  NaN coordinates in the source, which the model reports as \<open>NaNArithmetic\<close>.
\<close>

definition layout_reset :: "lfields \<Rightarrow> lfields" where
  "layout_reset l =
     l\<lparr>target_position := lastTargetPosition l,
       target_scale := vset 1 1 1,
       contentTarget_position := vset 0 0 0,
       contentTarget_scale := lastContentTargetScale l\<rparr>"

definition dom_position :: "lfields \<Rightarrow> bounds \<Rightarrow> bounds \<Rightarrow> vec3" where
  "dom_position l boundingRect parentBoundingRect =
     (let pixelSize = DEFAULT_PIXEL_DIMENSIONS;
          left = bleft boundingRect - bleft parentBoundingRect;
          top = btop boundingRect - btop parentBoundingRect;
          parentOriginX = pixelSize * (- bwidth parentBoundingRect / 2);
          parentOriginY = pixelSize * (bheight parentBoundingRect / 2);
          layerSeparation = num_or (layerSeparation l) DEFAULT_LAYER_SEPARATION;
          myLeft = pixelSize * (left + bwidth boundingRect / 2);
          myTop = pixelSize * (top + bheight boundingRect / 2)
      in vset (parentOriginX + myLeft) (parentOriginY - myTop)
              (layerSeparation * real (level l)))"

definition parent_bounds :: "lfields option \<Rightarrow> error + bounds" where
  "parent_bounds parent =
     (case parent of
        None \<Rightarrow> Inr ZERO_BOUNDS
      | Some p \<Rightarrow>
          (case bounds_getter p of
             Inl e \<Rightarrow> Inl e
           | Inr None \<Rightarrow> Inl NaNArithmetic
           | Inr (Some b) \<Rightarrow> Inr b))"

definition layout_finish :: "bounds \<Rightarrow> lfields \<Rightarrow> lfields" where
  "layout_finish boundingRect l2 =
     (let pixelSize = DEFAULT_PIXEL_DIMENSIONS;
          l3 = l2\<lparr>contentTarget_scale :=
                    vset (max (pixelSize * bwidth boundingRect) (1 / 100000))
                         (max (pixelSize * bheight boundingRect) (1 / 100000)) 1\<rparr>
      in l3\<lparr>lastTargetPosition := target_position l3,
            lastContentTargetScale := contentTarget_scale l3\<rparr>)"

definition updateTargetLayout :: "lfields option \<Rightarrow> lfields \<Rightarrow> error + lfields" where
  "updateTargetLayout parent l0 =
     (let l = layout_reset l0 in
      if needsRemoval l then Inr (l\<lparr>contentTargetOpacity := 0\<rparr>)
      else
        (case bounds_getter l of
           Inl e \<Rightarrow> Inl e
         | Inr None \<Rightarrow> Inl NaNArithmetic
         | Inr (Some boundingRect) \<Rightarrow>
             if bwidth boundingRect = 0 \<or> bheight boundingRect = 0
             then Inr (l\<lparr>contentTargetOpacity := 0\<rparr>)
             else
               (let l1 = l\<lparr>contentTargetOpacity := 1\<rparr> in
                if useDOMLayout l1
                then (case parent_bounds parent of
                        Inl e \<Rightarrow> Inl e
                      | Inr parentBoundingRect \<Rightarrow>
                          Inr (layout_finish boundingRect
                                 (l1\<lparr>target_position :=
                                       dom_position l1 boundingRect parentBoundingRect\<rparr>)))
                else Inr (layout_finish boundingRect l1))))"

text \<open>\<^verbatim>\<open>_updateMesh\<close>.\<close>

definition updateMesh :: "lfields option \<Rightarrow> lfields \<Rightarrow> error + lfields" where
  "updateMesh parent l =
     (case texture_getter l of
        Inl e \<Rightarrow> Inl e
      | Inr None \<Rightarrow> Inr l
      | Inr (Some t) \<Rightarrow>
          (let l1 = l\<lparr>materialMap := Some t\<rparr> in
           if \<not> meshParent l1
           then (case updateTargetLayout parent (l1\<lparr>meshParent := True\<rparr>) of
                   Inl e \<Rightarrow> Inl e
                 | Inr l2 \<Rightarrow>
                     Inr (l2\<lparr>content_position := contentTarget_position l2,
                              content_scale := contentTarget_scale l2\<rparr>))
           else Inr l1))"

section \<open>The DOM, as far as the layer tree reads it\<close>

text \<open>
  An element is named by a number. Its attributes are kept as the source reads them:
  the class attribute as text, the layer marker \<^verbatim>\<open>data-layer\<close> as absent (\<open>None\<close>),
  present without a numeric value (\<open>Some None\<close>, where \<^verbatim>\<open>parseInt\<close> gives NaN) or
  present with an object id; \<^verbatim>\<open>parseInt\<close> of the hover-depth attribute and
  \<^verbatim>\<open>parseFloat\<close> of the pixel-ratio attribute are taken as parsed, \<open>None\<close> being NaN.
  \<open>elBounds\<close> is what the geometry probe \<^verbatim>\<open>getBounds\<close> returns for the element.
\<close>

record elem =
  nodeName :: string
  classAttr :: "string option"
  layerAttr :: "nat option option"
  statesAttr :: "string option"
  hoverDepthParsed :: "int option"
  pixelRatioParsed :: "real option"
  elBounds :: bounds

datatype dtree = DNode nat "dtree list"

fun dnode_id :: "dtree \<Rightarrow> nat" where
  "dnode_id (DNode e cs) = e"

fun dnode_kids :: "dtree \<Rightarrow> dtree list" where
  "dnode_kids (DNode e cs) = cs"

fun subtree :: "nat \<Rightarrow> dtree list \<Rightarrow> dtree option" where
  "subtree a [] = None"
| "subtree a (DNode e cs # rest) =
     (if e = a then Some (DNode e cs)
      else (case subtree a cs of Some t \<Rightarrow> Some t | None \<Rightarrow> subtree a rest))"

fun dtree_ids :: "dtree list \<Rightarrow> nat list" where
  "dtree_ids [] = []"
| "dtree_ids (DNode e cs # rest) = e # dtree_ids cs @ dtree_ids rest"

text \<open>\<^verbatim>\<open>a.contains(b)\<close>: \<open>b\<close> is \<open>a\<close> or a descendant of \<open>a\<close>.\<close>

definition contains :: "dtree list \<Rightarrow> nat \<Rightarrow> nat \<Rightarrow> bool" where
  "contains doc a b =
     (a = b \<or> (case subtree a doc of None \<Rightarrow> False
                | Some t \<Rightarrow> b \<in> set (dtree_ids (dnode_kids t))))"

text \<open>The chain from an element up to the top of its tree, the element first.\<close>

fun ancestors_of :: "nat \<Rightarrow> dtree list \<Rightarrow> nat list option" where
  "ancestors_of a [] = None"
| "ancestors_of a (DNode e cs # rest) =
     (if e = a then Some [e]
      else (case ancestors_of a cs of
              Some p \<Rightarrow> Some (p @ [e])
            | None \<Rightarrow> ancestors_of a rest))"

text \<open>\<^verbatim>\<open>element.closest('[data-layer]')\<close>.\<close>

definition closest_layer_element :: "dtree list \<Rightarrow> (nat \<Rightarrow> elem) \<Rightarrow> nat \<Rightarrow> nat option" where
  "closest_layer_element doc els a =
     (case ancestors_of a doc of
        None \<Rightarrow> (if layerAttr (els a) \<noteq> None then Some a else None)
      | Some p \<Rightarrow> find (\<lambda>e. layerAttr (els e) \<noteq> None) p)"

text \<open>
  Modelled from the spec: \<^verbatim>\<open>traverseDOM\<close> of \<^verbatim>\<open>dom-utils\<close>, whose code is not in
  the source file (only its declaration is). It visits the element children of a node
  depth-first, calls \<open>each\<close> with the element and its depth, and goes below an element
  only when \<open>each\<close> returns true. The callback's effects are passed along as a state.
\<close>

fun traverseKids :: "(nat \<Rightarrow> nat \<Rightarrow> 's \<Rightarrow> bool \<times> 's) \<Rightarrow> nat \<Rightarrow> dtree list \<Rightarrow> 's \<Rightarrow> 's" where
  "traverseKids each lvl [] s = s"
| "traverseKids each lvl (DNode e cs # rest) s =
     (case each e (Suc lvl) s of
        (go, s1) \<Rightarrow>
          traverseKids each lvl rest (if go then traverseKids each (Suc lvl) cs s1 else s1))"

definition traverseDOM :: "dtree list \<Rightarrow> nat \<Rightarrow> (nat \<Rightarrow> nat \<Rightarrow> 's \<Rightarrow> bool \<times> 's) \<Rightarrow> nat \<Rightarrow> 's \<Rightarrow> 's" where
  "traverseDOM doc node each lvl s =
     (case subtree node doc of
        None \<Rightarrow> s
      | Some t \<Rightarrow> traverseKids each lvl (dnode_kids t) s)"

subsection \<open>Class lists\<close>

definition is_ws :: "char \<Rightarrow> bool" where
  "is_ws c = (c = CHR '' '' \<or> c = CHR 0x09 \<or> c = CHR 0x0A \<or> c = CHR 0x0B
              \<or> c = CHR 0x0C \<or> c = CHR 0x0D)"

text \<open>\<^verbatim>\<open>s.split(/\s+/)\<close>: the pieces between maximal runs of white space.\<close>

fun split_go :: "string \<Rightarrow> string \<Rightarrow> bool \<Rightarrow> string list" where
  "split_go [] cur inws = [rev cur]"
| "split_go (c # cs) cur inws =
     (if is_ws c then (if inws then split_go cs cur True else rev cur # split_go cs [] True)
      else split_go cs (c # cur) False)"

definition split_ws :: "string \<Rightarrow> string list" where
  "split_ws s = split_go s [] False"

definition className :: "elem \<Rightarrow> string" where
  "className el = (case classAttr el of None \<Rightarrow> [] | Some v \<Rightarrow> v)"

text \<open>\<^verbatim>\<open>element.classList\<close>: the distinct tokens of the class attribute, in order.\<close>

definition classList :: "elem \<Rightarrow> string list" where
  "classList el = rev (remdups (rev (filter (\<lambda>c. c \<noteq> []) (split_ws (className el)))))"

text \<open>
  \<^verbatim>\<open>(getAttribute(STATES_ATTRIBUTE) || '').trim().split(/\s+/).filter(Boolean)\<close>
  followed by \<^verbatim>\<open>states.push('')\<close>.
\<close>

definition declared_states :: "elem \<Rightarrow> string list" where
  "declared_states el =
     filter (\<lambda>c. c \<noteq> []) (split_ws (case statesAttr el of None \<Rightarrow> [] | Some v \<Rightarrow> v)) @ [[]]"

text \<open>\<^verbatim>\<open>arraySubtract\<close>.\<close>

definition arraySubtract :: "'a list \<Rightarrow> 'a list \<Rightarrow> 'a list" where
  "arraySubtract a b = filter (\<lambda>item. item \<notin> set b) a"

section \<open>The layer tree and the state shared through the root\<close>

text \<open>
  A layer with its \<^verbatim>\<open>children\<close> that are layers, in the order they were added. The
  other children of the scene-graph node (content, cursor) are not layers and every
  loop of the source skips them. \<open>childLayers\<close> holds object references, here ids.
\<close>

datatype layer = Layer lfields "layer list"

fun fieldsOf :: "layer \<Rightarrow> lfields" where
  "fieldsOf (Layer f cs) = f"

fun children :: "layer \<Rightarrow> layer list" where
  "children (Layer f cs) = cs"

fun layers_of :: "layer \<Rightarrow> lfields list" where
  "layers_of (Layer f cs) = f # concat (map layers_of cs)"

definition layer_ids :: "layer \<Rightarrow> nat list" where
  "layer_ids t = map lid (layers_of t)"

text \<open>
  The root's \<^verbatim>\<open>_rasterizationQueue\<close> and \<^verbatim>\<open>_isUpdating\<close>, the element attributes,
  the counter of scene-graph object ids, the textures disposed so far,
  \<^verbatim>\<open>window.devicePixelRatio\<close> and the number that names the next texture object
  created.
\<close>

record glob =
  elems :: "nat \<Rightarrow> elem"
  queue :: "nat list"
  nextId :: nat
  disposed :: "nat list"
  isUpdating :: bool
  devicePixelRatio :: real
  nextTexture :: nat

subsection \<open>\<^verbatim>\<open>_updateState\<close>\<close>

definition empty_slot :: slot where
  "empty_slot = \<lparr>texture = None, sbounds = None\<rparr>"

text \<open>\<^verbatim>\<open>for (let i = 0; i <= this._hoverDepth; i++)\<close>: no slot when the depth is NaN or negative.\<close>

definition new_hoverStates :: "int option \<Rightarrow> slot list" where
  "new_hoverStates dep = (case dep of None \<Rightarrow> [] | Some n \<Rightarrow> replicate (nat (n + 1)) empty_slot)"

text \<open>\<^verbatim>\<open>hoverState.texture.dispose()\<close> throws when the texture is still \<^verbatim>\<open>null\<close>.\<close>

fun dispose_slots :: "slot list \<Rightarrow> nat list \<Rightarrow> error + nat list" where
  "dispose_slots [] d = Inr d"
| "dispose_slots (s # ss) d =
     (case texture s of None \<Rightarrow> Inl TypeError | Some t \<Rightarrow> dispose_slots ss (d @ [t]))"

fun cleanup_states ::
  "string list \<Rightarrow> (string \<times> slot list) list \<Rightarrow> nat list
     \<Rightarrow> error + ((string \<times> slot list) list \<times> nat list)" where
  "cleanup_states decl [] d = Inr ([], d)"
| "cleanup_states decl ((k, hs) # rest) d =
     (if k \<in> set decl
      then (case cleanup_states decl rest d of
              Inl e \<Rightarrow> Inl e
            | Inr (r, d') \<Rightarrow> Inr ((k, hs) # r, d'))
      else (case dispose_slots hs d of
              Inl e \<Rightarrow> Inl e
            | Inr d1 \<Rightarrow> cleanup_states decl rest d1))"

fun create_states ::
  "string list \<Rightarrow> int option \<Rightarrow> (string \<times> slot list) list \<Rightarrow> (string \<times> slot list) list" where
  "create_states [] dep st = st"
| "create_states (k # ks) dep st =
     create_states ks dep (if map_of st k = None then st @ [(k, new_hoverStates dep)] else st)"

definition current_state :: "string list \<Rightarrow> string list \<Rightarrow> string" where
  "current_state classes decl =
     (case find (\<lambda>c. c \<in> set decl) classes of None \<Rightarrow> [] | Some c \<Rightarrow> c)"

definition compute_pixelRatio :: "real option \<Rightarrow> real \<Rightarrow> real option \<Rightarrow> real" where
  "compute_pixelRatio opt device attr =
     (let pixelRatioDefault =
            (case opt of
               Some p \<Rightarrow> (if p > 0 then p else (if device = 0 then 1 else device))
             | None \<Rightarrow> (if device = 0 then 1 else device));
          pixelRatio =
            (case attr of
               Some a \<Rightarrow> (if a > 0 then a * pixelRatioDefault else pixelRatioDefault)
             | None \<Rightarrow> pixelRatioDefault)
      in max pixelRatio (1 / 100000))"

definition updateState :: "lfields \<Rightarrow> glob \<Rightarrow> error + (lfields \<times> glob)" where
  "updateState l g =
     (let el = elems g (element l);
          decl = declared_states el;
          l1 = l\<lparr>pixelRatio := compute_pixelRatio (options_pixelRatio l) (devicePixelRatio g)
                                  (pixelRatioParsed el),
                hoverDepth := hoverDepthParsed el,
                state := current_state (classList el) decl\<rparr>
      in case cleanup_states decl (states l1) (disposed g) of
           Inl e \<Rightarrow> Inl e
         | Inr (st, d) \<Rightarrow>
             Inr (l1\<lparr>states := create_states decl (hoverDepth l1) st\<rparr>, g\<lparr>disposed := d\<rparr>))"

subsection \<open>\<^verbatim>\<open>_updateBounds\<close>\<close>

text \<open>
  \<^verbatim>\<open>domUtils.getBounds(this.element, this.bounds)\<close> writes the element's bounds into
  the bounds object of the slot that the getter selects.
\<close>

definition current_key :: "lfields \<Rightarrow> string" where
  "current_key l = (if map_of (states l) (state l) \<noteq> None then state l else [])"

definition current_index :: "lfields \<Rightarrow> slot list \<Rightarrow> nat" where
  "current_index l hs = (if hover l < length hs then hover l else 0)"

definition write_slot_bounds :: "lfields \<Rightarrow> bounds \<Rightarrow> lfields" where
  "write_slot_bounds l b =
     l\<lparr>states :=
         map (\<lambda>(k, hs). if k = current_key l
                          then (k, hs[current_index l hs := (hs ! current_index l hs)\<lparr>sbounds := Some b\<rparr>])
                          else (k, hs))
             (states l)\<rparr>"

definition updateBounds :: "lfields \<Rightarrow> glob \<Rightarrow> error + lfields" where
  "updateBounds l g =
     (case bounds_getter l of
        Inl e \<Rightarrow> Inl e
      | Inr _ \<Rightarrow> Inr (write_slot_bounds l (elBounds (elems g (element l)))))"

subsection \<open>Child layers\<close>

text \<open>
  The constructor, for a layer that is not the root: the scene-graph id counter gives
  the layer its id (the layer and its content, mesh, target, content target and cursor
  objects take six ids), and the element's layer attribute is set to that id. The
  \<^verbatim>\<open>onLayerCreate\<close> callback of the options is not modelled.
\<close>

definition new_fields ::
  "nat \<Rightarrow> nat \<Rightarrow> real option \<Rightarrow> real option \<Rightarrow> nat \<Rightarrow> nat \<Rightarrow> lfields" where
  "new_fields i el sep pr rootId lvl =
     \<lparr>lid = i, element = el, childLayers = [], needsRasterize = True, useDOMLayout = True,
      contentTargetOpacity = 0, target_position = vset 0 0 0, target_scale = vset 1 1 1,
      contentTarget_position = vset 0 0 0, contentTarget_scale = vset 1 1 1,
      lastTargetPosition = vset 0 0 0,
      lastContentTargetScale = vset (1 / 10) (1 / 10) (1 / 10),
      position = vset 0 0 0, content_position = vset 0 0 0, content_scale = vset 1 1 1,
      hover = 0, hoverDepth = Some 0, states = [], state = [], pixelRatio = 1,
      needsRemoval = False, level = lvl, layerSeparation = sep,
      opacity = 0, meshVisible = False, meshParent = False, materialMap = None,
      resizeObserver = True, options_pixelRatio = pr,
      scale = vset 1 1 1, mutationObserver = False, rootLayer = rootId\<rparr>"

definition new_WebLayer3D :: "nat \<Rightarrow> lfields \<Rightarrow> nat \<Rightarrow> glob \<Rightarrow> layer \<times> glob" where
  "new_WebLayer3D el parent lvl g =
     (let i = nextId g
      in (Layer (new_fields i el (layerSeparation parent) (options_pixelRatio parent)
                   (rootLayer parent) lvl) [],
          g\<lparr>nextId := i + 6,
            elems := (elems g)(el := (elems g el)\<lparr>layerAttr := Some (Some i)\<rparr>)\<rparr>))"

text \<open>
  The constructor for a root (no root layer passed, level 0): the root does not use
  the DOM layout and owns the mutation observer.
\<close>

definition new_root :: "nat \<Rightarrow> real option \<Rightarrow> real option \<Rightarrow> glob \<Rightarrow> layer \<times> glob" where
  "new_root el sep pr g =
     (let i = nextId g
      in (Layer ((new_fields i el sep pr i 0)\<lparr>useDOMLayout := False, mutationObserver := True\<rparr>) [],
          g\<lparr>nextId := i + 6,
            elems := (elems g)(el := (elems g el)\<lparr>layerAttr := Some (Some i)\<rparr>)\<rparr>))"

text \<open>
  \<^verbatim>\<open>this.getObjectById(parseInt(id + '', 10))\<close> searches the layer and everything below
  it. The ids written into layer attributes are ids of layers.
\<close>

definition getObjectById :: "nat option option \<Rightarrow> layer \<Rightarrow> nat option" where
  "getObjectById a this =
     (case a of
        Some (Some i) \<Rightarrow> (if i \<in> set (layer_ids this) then Some i else None)
      | _ \<Rightarrow> None)"

definition tryConvertToWebLayer3D :: "nat \<Rightarrow> nat \<Rightarrow> layer \<times> glob \<Rightarrow> bool \<times> (layer \<times> glob)" where
  "tryConvertToWebLayer3D el lvl s =
     (case s of
        (Layer f cs, g) \<Rightarrow>
          (let a = layerAttr (elems g el) in
           if a \<noteq> None \<or> nodeName (elems g el) = ''video''
           then (case getObjectById a (Layer f cs) of
                   Some i \<Rightarrow> (False, (Layer (f\<lparr>childLayers := childLayers f @ [i]\<rparr>) cs, g))
                 | None \<Rightarrow>
                     (case new_WebLayer3D el f lvl g of
                        (child, g') \<Rightarrow>
                          (False,
                           (Layer (f\<lparr>childLayers := childLayers f @ [lid (fieldsOf child)]\<rparr>)
                                  (cs @ [child]), g'))))
           else (True, (Layer f cs, g))))"

fun markForRemoval :: "layer \<Rightarrow> layer" where
  "markForRemoval (Layer f cs) = Layer (f\<lparr>needsRemoval := True\<rparr>) (map markForRemoval cs)"

text \<open>\<^verbatim>\<open>child._markForRemoval()\<close> on the layer object with the given id.\<close>

fun mark_id :: "nat \<Rightarrow> layer \<Rightarrow> layer" where
  "mark_id i (Layer f cs) =
     (if lid f = i then markForRemoval (Layer f cs) else Layer f (map (mark_id i) cs))"

fun mark_absent :: "nat list \<Rightarrow> layer \<Rightarrow> layer" where
  "mark_absent [] this = this"
| "mark_absent (child # rest) this =
     mark_absent rest
       (if child \<notin> set (childLayers (fieldsOf this)) then mark_id child this else this)"

definition updateChildLayers :: "dtree list \<Rightarrow> layer \<Rightarrow> glob \<Rightarrow> layer \<times> glob" where
  "updateChildLayers doc this g =
     (case this of
        Layer f cs \<Rightarrow>
          (let oldChildLayers = childLayers f
           in case traverseDOM doc (element f) tryConvertToWebLayer3D (level f)
                     (Layer (f\<lparr>childLayers := []\<rparr>) cs, g) of
                (this2, g2) \<Rightarrow> (mark_absent oldChildLayers this2, g2)))"

subsection \<open>\<^verbatim>\<open>refresh\<close>\<close>

definition enqueue :: "nat \<Rightarrow> glob \<Rightarrow> glob" where
  "enqueue i g = (if i \<in> set (queue g) then g else g\<lparr>queue := queue g @ [i]\<rparr>)"

text \<open>The part of \<^verbatim>\<open>refresh\<close> before the loop over the children.\<close>

definition refresh_head :: "bool \<Rightarrow> dtree list \<Rightarrow> layer \<Rightarrow> glob \<Rightarrow> error + (layer \<times> glob)" where
  "refresh_head forceRasterize doc this g =
     (case this of
        Layer f cs \<Rightarrow>
          (case updateState f g of
             Inl e \<Rightarrow> Inl e
           | Inr (f1, g1) \<Rightarrow>
               (case updateBounds f1 g1 of
                  Inl e \<Rightarrow> Inl e
                | Inr f2 \<Rightarrow>
                    if needsRasterize f2 \<or> forceRasterize
                    then (case updateChildLayers doc (Layer (f2\<lparr>needsRasterize := False\<rparr>) cs) g1 of
                            (this3, g3) \<Rightarrow> Inr (this3, enqueue (lid f2) g3))
                    else Inr (Layer f2 cs, g1))))"

text \<open>The part after the loop: \<^verbatim>\<open>_updateTargetLayout\<close> and \<^verbatim>\<open>_updateMesh\<close>.\<close>

definition refresh_tail :: "lfields option \<Rightarrow> lfields \<Rightarrow> error + lfields" where
  "refresh_tail parent f =
     (case updateTargetLayout parent f of
        Inl e \<Rightarrow> Inl e
      | Inr f5 \<Rightarrow> updateMesh parent f5)"

text \<open>
  A loop over a list of layers that passes the shared state along and stops at the
  first exception. \<open>None\<close> is a call that did not return within the depth given.
\<close>

fun each_layer ::
  "(layer \<Rightarrow> glob \<Rightarrow> (error + (layer \<times> glob)) option) \<Rightarrow> layer list \<Rightarrow> glob
     \<Rightarrow> (error + (layer list \<times> glob)) option" where
  "each_layer h [] g = Some (Inr ([], g))"
| "each_layer h (c # cs) g =
     (case h c g of
        None \<Rightarrow> None
      | Some (Inl e) \<Rightarrow> Some (Inl e)
      | Some (Inr (c', g1)) \<Rightarrow>
          (case each_layer h cs g1 of
             None \<Rightarrow> None
           | Some (Inl e) \<Rightarrow> Some (Inl e)
           | Some (Inr (cs', g2)) \<Rightarrow> Some (Inr (c' # cs', g2))))"

text \<open>
  \<^verbatim>\<open>refresh\<close> calls itself on the children, among them the ones it has just
  created, so the recursion follows the DOM and not the layer tree. The first argument
  bounds the depth of the recursion.
\<close>

fun refresh ::
  "nat \<Rightarrow> bool \<Rightarrow> dtree list \<Rightarrow> lfields option \<Rightarrow> layer \<Rightarrow> glob
     \<Rightarrow> (error + (layer \<times> glob)) option" where
  "refresh 0 forceRasterize doc parent this g = None"
| "refresh (Suc n) forceRasterize doc parent this g =
     (case refresh_head forceRasterize doc this g of
        Inl e \<Rightarrow> Some (Inl e)
      | Inr (this3, g3) \<Rightarrow>
          (case each_layer (refresh n forceRasterize doc (Some (fieldsOf this3)))
                  (children this3) g3 of
             None \<Rightarrow> None
           | Some (Inl e) \<Rightarrow> Some (Inl e)
           | Some (Inr (cs', g4)) \<Rightarrow>
               (case refresh_tail parent (fieldsOf this3) of
                  Inl e \<Rightarrow> Some (Inl e)
                | Inr f6 \<Rightarrow> Some (Inr (Layer f6 cs', g4)))))"

declare refresh.simps [simp del]

section \<open>Mutation records\<close>

text \<open>
  A mutation record as \<^verbatim>\<open>_processMutations\<close> reads it: an attribute record for the
  class attribute with its old value; an attribute record for another attribute,
  with the outcome of \<^verbatim>\<open>getAttribute(record.attributeName) === record.oldValue\<close>;
  a character-data record with the parent element of the text node (if any) and the
  outcome of \<^verbatim>\<open>data === record.oldValue\<close>; a child-list record with its target
  element.
\<close>

datatype mrecord =
    ClassRec nat "string option"
  | AttrRec nat string bool
  | CharDataRec "nat option" bool
  | ChildListRec nat

fun at_id :: "nat \<Rightarrow> (layer \<Rightarrow> layer) \<Rightarrow> layer \<Rightarrow> layer" where
  "at_id i h (Layer f cs) =
     (if lid f = i then h (Layer f cs) else Layer f (map (at_id i h) cs))"

fun traverseLayers :: "(lfields \<Rightarrow> lfields) \<Rightarrow> layer \<Rightarrow> layer" where
  "traverseLayers each (Layer f cs) = Layer (each f) (map (traverseLayers each) cs)"

definition lookup_layer :: "nat \<Rightarrow> layer \<Rightarrow> lfields option" where
  "lookup_layer i t = find (\<lambda>f. lid f = i) (layers_of t)"

text \<open>The layer object with a given id: the first one met, a layer before its children.\<close>

fun first_some :: "'a option list \<Rightarrow> 'a option" where
  "first_some [] = None"
| "first_some (None # xs) = first_some xs"
| "first_some (Some x # xs) = Some x"

fun subtree_at :: "nat \<Rightarrow> layer \<Rightarrow> layer option" where
  "subtree_at i (Layer f cs) =
     (if lid f = i then Some (Layer f cs) else first_some (map (subtree_at i) cs))"

text \<open>\<^verbatim>\<open>getLayerForElement\<close>, called on the root.\<close>

definition getLayerForElement :: "dtree list \<Rightarrow> glob \<Rightarrow> layer \<Rightarrow> nat \<Rightarrow> nat option" where
  "getLayerForElement doc g rootL el =
     (case closest_layer_element doc (elems g) el of
        None \<Rightarrow> None
      | Some ce \<Rightarrow> getObjectById (layerAttr (elems g ce)) rootL)"

definition setLayerNeedsRasterize :: "dtree list \<Rightarrow> nat \<Rightarrow> lfields \<Rightarrow> lfields" where
  "setLayerNeedsRasterize doc target l =
     (if contains doc target (element l) then l\<lparr>needsRasterize := True\<rparr> else l)"

text \<open>
  For a class record: whether a class was added or removed that is neither
  \<^verbatim>\<open>hover\<close> nor a key of the layer's state cache.
\<close>

definition old_classes :: "string option \<Rightarrow> string list" where
  "old_classes oldValue =
     (case oldValue of None \<Rightarrow> [] | Some v \<Rightarrow> (if v = [] then [] else split_ws v))"

definition class_needsRasterize :: "lfields \<Rightarrow> string option \<Rightarrow> string \<Rightarrow> bool" where
  "class_needsRasterize l oldValue cls =
     (let oldClasses = old_classes oldValue;
          currentClasses = split_ws cls;
          addedClasses = arraySubtract currentClasses oldClasses;
          removedClasses = arraySubtract oldClasses currentClasses
      in (\<exists>c \<in> set (removedClasses @ addedClasses).
            \<not> (c = ''hover'' \<or> map_of (states l) c \<noteq> None)))"

definition dirty_layer :: "dtree list \<Rightarrow> nat \<Rightarrow> nat \<Rightarrow> layer \<Rightarrow> layer" where
  "dirty_layer doc target i rootL =
     at_id i (\<lambda>t. traverseLayers (setLayerNeedsRasterize doc target)
                    (Layer ((fieldsOf t)\<lparr>needsRasterize := True\<rparr>) (children t))) rootL"

definition record_target :: "mrecord \<Rightarrow> nat option" where
  "record_target r =
     (case r of
        ClassRec t v \<Rightarrow> Some t
      | AttrRec t a same \<Rightarrow> Some t
      | CharDataRec t same \<Rightarrow> t
      | ChildListRec t \<Rightarrow> Some t)"

definition record_unchanged :: "glob \<Rightarrow> mrecord \<Rightarrow> bool" where
  "record_unchanged g r =
     (case r of
        ClassRec t v \<Rightarrow> classAttr (elems g t) = v
      | AttrRec t a same \<Rightarrow> same
      | CharDataRec t same \<Rightarrow> same
      | ChildListRec t \<Rightarrow> False)"

definition process_record :: "dtree list \<Rightarrow> glob \<Rightarrow> mrecord \<Rightarrow> layer \<Rightarrow> layer" where
  "process_record doc g r rootL =
     (if record_unchanged g r then rootL
      else
        (case record_target r of
           None \<Rightarrow> rootL
         | Some target \<Rightarrow>
             (case getLayerForElement doc g rootL target of
                None \<Rightarrow> rootL
              | Some i \<Rightarrow>
                  (case lookup_layer i rootL of
                     None \<Rightarrow> rootL
                   | Some l \<Rightarrow>
                       (case r of
                          ClassRec t v \<Rightarrow>
                            (if class_needsRasterize l v (className (elems g t))
                             then dirty_layer doc target i rootL
                             else rootL)
                        | _ \<Rightarrow> dirty_layer doc target i rootL)))))"

definition processMutations :: "dtree list \<Rightarrow> glob \<Rightarrow> mrecord list \<Rightarrow> layer \<Rightarrow> layer" where
  "processMutations doc g records rootL =
     (if isUpdating g then rootL else fold (process_record doc g) records rootL)"

section \<open>The default transition\<close>

text \<open>\<^verbatim>\<open>Vector3.lerp\<close>. Orientations stay the identity and are not modelled.\<close>

definition vlerp :: "vec3 \<Rightarrow> vec3 \<Rightarrow> real \<Rightarrow> vec3" where
  "vlerp a v alpha = vset (vx a + (vx v - vx a) * alpha) (vy a + (vy v - vy a) * alpha)
                          (vz a + (vz v - vz a) * alpha)"

text \<open>
  \<^verbatim>\<open>dispose\<close> disconnects the observers of a layer and goes on through
  \<^verbatim>\<open>childLayers\<close>, which are looked up among the children, where
  \<^verbatim>\<open>_tryConvertToWebLayer3D\<close> adds them. It releases nothing else.
\<close>

fun dispose :: "layer \<Rightarrow> layer" where
  "dispose (Layer f cs) =
     Layer (f\<lparr>mutationObserver := False, resizeObserver := False\<rparr>)
           (map (\<lambda>c. if lid (fieldsOf c) \<in> set (childLayers f) then dispose c else c) cs)"

lemma size_dispose: "size (dispose t) = size t"
proof (induction t rule: dispose.induct)
  case (1 f cs)
  have "map (\<lambda>c. size (if lid (fieldsOf c) \<in> set (childLayers f) then dispose c else c)) cs = map size cs"
    by (rule map_cong) (use 1 in auto)
  from arg_cong[OF this, of sum_list] show ?case by (simp add: size_list_conv_sum_list o_def)
qed

lemma size_o_dispose: "(size \<circ> (\<lambda>c. if P c then dispose c else c)) = size"
  by (rule ext) (simp add: size_dispose)

definition transitionLayout :: "real \<Rightarrow> lfields \<Rightarrow> lfields" where
  "transitionLayout alpha l =
     l\<lparr>position := vlerp (position l) (target_position l) alpha,
       scale := vlerp (scale l) (target_scale l) alpha,
       content_position := vlerp (content_position l) (contentTarget_position l) alpha,
       content_scale := vlerp (content_scale l) (contentTarget_scale l) alpha\<rparr>"

text \<open>\<^verbatim>\<open>!material.opacity || material.opacity < 0.005\<close>.\<close>

definition isHidden :: "lfields \<Rightarrow> bool" where
  "isHidden l = (opacity l = 0 \<or> opacity l < 5 / 1000)"

definition transitionVisibility :: "real \<Rightarrow> lfields \<Rightarrow> lfields" where
  "transitionVisibility alpha l =
     (let l1 = l\<lparr>opacity := min ((1 - alpha) * opacity l + alpha * contentTargetOpacity l) 1\<rparr>
      in l1\<lparr>meshVisible := \<not> isHidden l1\<rparr>)"

text \<open>
  \<^verbatim>\<open>traverseLayers(transition, alpha)\<close> with \<open>TRANSITION_DEFAULT\<close>. The
  second component says that the layer removed itself from its parent. The loop over
  \<^verbatim>\<open>this.children\<close> runs on the live array: when a child removes itself, the
  child after it moves into its place and the loop passes over it.
\<close>

function traverse_transition :: "real \<Rightarrow> layer \<Rightarrow> layer \<times> bool"
  and transition_children :: "real \<Rightarrow> layer list \<Rightarrow> layer list" where
  "traverse_transition alpha (Layer f cs) =
     (let f1 = transitionVisibility alpha (transitionLayout alpha f);
          removed = (needsRemoval f1 \<and> isHidden f1);
          this1 = (if removed then dispose (Layer f1 cs) else Layer f1 cs)
      in (Layer (fieldsOf this1) (transition_children alpha (children this1)), removed))"
| "transition_children alpha [] = []"
| "transition_children alpha (c # cs) =
     (case traverse_transition alpha c of
        (c', removed) \<Rightarrow>
          if removed
          then (case cs of [] \<Rightarrow> [] | s # rest \<Rightarrow> s # transition_children alpha rest)
          else c' # transition_children alpha cs)"
  by pat_completeness auto
termination
  apply (relation "measure (\<lambda>x. case x of Inl (a, t) \<Rightarrow> 2 * size t | Inr (a, ts) \<Rightarrow> 2 * size_list size ts + 1)")
  apply (auto simp: size_dispose size_o_dispose)
  done

section \<open>Interaction\<close>

text \<open>
  Ray casting belongs to the scene graph. A ray is given by the layers whose meshes it
  intersects, the nearest first.
\<close>

fun path_ids :: "nat \<Rightarrow> layer \<Rightarrow> nat list" where
  "path_ids i (Layer f cs) =
     (if lid f = i then [i]
      else (case concat (map (path_ids i) cs) of [] \<Rightarrow> [] | p \<Rightarrow> lid f # p))"

definition ray_hover :: "layer \<Rightarrow> nat list \<Rightarrow> nat list" where
  "ray_hover rootL hit =
     (case find (\<lambda>i. case lookup_layer i rootL of
                         None \<Rightarrow> False
                       | Some l \<Rightarrow> contentTargetOpacity l \<noteq> 0) hit of
        None \<Rightarrow> []
      | Some i \<Rightarrow> path_ids i rootL)"

definition clearHover :: "lfields \<Rightarrow> lfields" where
  "clearHover l = l\<lparr>hover := 0\<rparr>"

fun setHover :: "nat list \<Rightarrow> nat option \<Rightarrow> layer \<Rightarrow> layer" where
  "setHover hoverLayers parentHover (Layer f cs) =
     (let h = (if lid f \<in> set hoverLayers then 1
               else (case parentHover of
                       Some ph \<Rightarrow> (if ph > 0 then ph + 1 else hover f)
                     | None \<Rightarrow> hover f))
      in Layer (f\<lparr>hover := h\<rparr>) (map (setHover hoverLayers (Some h)) cs))"

fun join_ws :: "string list \<Rightarrow> string" where
  "join_ws [] = []"
| "join_ws [c] = c"
| "join_ws (c # cs) = c @ '' '' @ join_ws cs"

definition setHoverClass :: "dtree list \<Rightarrow> nat list \<Rightarrow> nat \<Rightarrow> nat \<Rightarrow> glob \<Rightarrow> bool \<times> glob" where
  "setHoverClass doc hoverElements el lvl g =
     (let e = elems g el;
          hov = (\<exists>le \<in> set hoverElements. contains doc el le);
          has = (''hover'' \<in> set (classList e));
          e1 = (if hov \<and> \<not> has
                then e\<lparr>classAttr := Some (join_ws (classList e @ [''hover'']))\<rparr>
                else if \<not> hov \<and> has
                then e\<lparr>classAttr := Some (join_ws (filter (\<lambda>c. c \<noteq> ''hover'') (classList e)))\<rparr>
                else e)
      in (True, g\<lparr>elems := (elems g)(el := e1)\<rparr>))"

definition updateInteractions :: "nat list list \<Rightarrow> dtree list \<Rightarrow> layer \<Rightarrow> glob \<Rightarrow> layer \<times> glob" where
  "updateInteractions rays doc rootL g =
     (let r1 = traverseLayers clearHover rootL;
          hoverLayers = concat (map (ray_hover r1) rays);
          r2 = setHover hoverLayers None r1;
          hoverElements = map element (filter (\<lambda>l. lid l \<in> set hoverLayers) (layers_of r2))
      in (r2, traverseDOM doc (element (fieldsOf r2)) (setHoverClass doc hoverElements) 0 g))"

section \<open>\<^verbatim>\<open>update\<close>\<close>

text \<open>
  \<^verbatim>\<open>update\<close> with the default transition. The rasterizations it schedules run
  later, from an idle callback, and are modelled on their own below.
\<close>

definition checkRoot :: "lfields \<Rightarrow> error + unit" where
  "checkRoot l = (if rootLayer l \<noteq> lid l then Inl RootOnlyError else Inr ())"

definition update ::
  "nat \<Rightarrow> real \<Rightarrow> nat list list \<Rightarrow> dtree list \<Rightarrow> layer \<Rightarrow> glob
     \<Rightarrow> (error + (layer \<times> glob)) option" where
  "update n alpha0 rays doc this g =
     (let alpha = min alpha0 1 in
      case checkRoot (fieldsOf this) of
        Inl e \<Rightarrow> Some (Inl e)
      | Inr _ \<Rightarrow>
          (case updateInteractions rays doc this (g\<lparr>isUpdating := True\<rparr>) of
             (t2, g2) \<Rightarrow>
               (case refresh n False doc None t2 g2 of
                  None \<Rightarrow> None
                | Some (Inl e) \<Rightarrow> Some (Inl e)
                | Some (Inr (t3, g3)) \<Rightarrow>
                    Some (Inr (fst (traverse_transition alpha t3), g3\<lparr>isUpdating := False\<rparr>)))))"

section \<open>Rasterization\<close>

text \<open>
  \<^verbatim>\<open>_rasterize\<close> up to its \<^verbatim>\<open>await\<close>. \<open>probe\<close> gives what \<^verbatim>\<open>getBounds\<close>
  returns for the element while a state class and the hover classes are applied. The
  result lists the render functions: state, hover slot and texture to commit.
\<close>

fun raster_hovers ::
  "(nat \<Rightarrow> bounds) \<Rightarrow> nat list \<Rightarrow> slot list \<Rightarrow> nat
     \<Rightarrow> error + (slot list \<times> nat \<times> (nat \<times> nat) list)" where
  "raster_hovers probe [] hs nt = Inr (hs, nt, [])"
| "raster_hovers probe (h # rest) hs nt =
     (case nth_opt hs h of
        None \<Rightarrow> Inl TypeError
      | Some st \<Rightarrow>
          (let t = (case texture st of Some t \<Rightarrow> t | None \<Rightarrow> nt);
               nt1 = (case texture st of Some t \<Rightarrow> nt | None \<Rightarrow> Suc nt);
               b = probe h
           in if bwidth b = 0 \<or> bheight b = 0 then raster_hovers probe rest hs nt1
              else (case raster_hovers probe rest (hs[h := st\<lparr>sbounds := Some b\<rparr>]) nt1 of
                      Inl e \<Rightarrow> Inl e
                    | Inr (hs', nt', pend) \<Rightarrow> Inr (hs', nt', (h, t) # pend))))"

fun raster_states ::
  "(string \<Rightarrow> nat \<Rightarrow> bounds) \<Rightarrow> nat list \<Rightarrow> (string \<times> slot list) list \<Rightarrow> nat
     \<Rightarrow> error + ((string \<times> slot list) list \<times> nat \<times> (string \<times> nat \<times> nat) list)" where
  "raster_states probe hovers [] nt = Inr ([], nt, [])"
| "raster_states probe hovers ((k, hs) # rest) nt =
     (case raster_hovers (probe k) hovers hs nt of
        Inl e \<Rightarrow> Inl e
      | Inr (hs', nt1, pend) \<Rightarrow>
          (case raster_states probe hovers rest nt1 of
             Inl e \<Rightarrow> Inl e
           | Inr (rest', nt2, pend2) \<Rightarrow>
               Inr ((k, hs') # rest', nt2, map (\<lambda>(h, t). (k, h, t)) pend @ pend2)))"

definition hover_range :: "int option \<Rightarrow> nat list" where
  "hover_range d = (case d of None \<Rightarrow> [] | Some n \<Rightarrow> [0 ..< nat (n + 1)])"

definition rasterize_video :: "lfields \<Rightarrow> glob \<Rightarrow> error + (lfields \<times> glob)" where
  "rasterize_video l g =
     (case map_of (states l) [] of
        None \<Rightarrow> Inl TypeError
      | Some hs \<Rightarrow>
          (case nth_opt hs 0 of
             None \<Rightarrow> Inl TypeError
           | Some st \<Rightarrow>
               (let t = (case texture st of Some t \<Rightarrow> t | None \<Rightarrow> nextTexture g);
                    nt = (case texture st of Some t \<Rightarrow> nextTexture g | None \<Rightarrow> Suc (nextTexture g));
                    st1 = \<lparr>texture = Some t, sbounds = Some (elBounds (elems g (element l)))\<rparr>
                in Inr (l\<lparr>states := map (\<lambda>(k, hs). if k = [] then (k, hs[0 := st1]) else (k, hs))
                                         (states l)\<rparr>,
                        g\<lparr>nextTexture := nt\<rparr>))))"

definition rasterize_element ::
  "(string \<Rightarrow> nat \<Rightarrow> bounds) \<Rightarrow> lfields \<Rightarrow> glob
     \<Rightarrow> error + (lfields \<times> glob \<times> (string \<times> nat \<times> nat) list)" where
  "rasterize_element probe l g =
     (case raster_states probe (hover_range (hoverDepth l)) (states l) (nextTexture g) of
        Inl e \<Rightarrow> Inl e
      | Inr (st, nt, pend) \<Rightarrow> Inr (l\<lparr>states := st\<rparr>, g\<lparr>nextTexture := nt\<rparr>, pend))"

text \<open>
  The whole synchronous part, for the layer \<open>i\<close> of the tree: a video element takes
  the first branch; otherwise \<^verbatim>\<open>_disableTransforms(true)\<close> first processes the
  mutation records taken from the observer. Only the state cache of the layer
  changes. A layer that has left the tree is not followed.
\<close>

definition rasterize ::
  "(string \<Rightarrow> nat \<Rightarrow> bounds) \<Rightarrow> mrecord list \<Rightarrow> dtree list \<Rightarrow> nat \<Rightarrow> layer \<Rightarrow> glob
     \<Rightarrow> error + (layer \<times> glob \<times> (string \<times> nat \<times> nat) list)" where
  "rasterize probe records doc i rootL g =
     (case lookup_layer i rootL of
        None \<Rightarrow> Inr (rootL, g, [])
      | Some l0 \<Rightarrow>
          if nodeName (elems g (element l0)) = ''video''
          then (case rasterize_video l0 g of
                  Inl e \<Rightarrow> Inl e
                | Inr (l1, g1) \<Rightarrow>
                    Inr (at_id i (\<lambda>t. Layer ((fieldsOf t)\<lparr>states := states l1\<rparr>) (children t)) rootL,
                         g1, []))
          else
            (let r1 = processMutations doc g records rootL in
             case lookup_layer i r1 of
               None \<Rightarrow> Inr (r1, g, [])
             | Some l \<Rightarrow>
                 (case rasterize_element probe l g of
                    Inl e \<Rightarrow> Inl e
                  | Inr (l1, g1, pend) \<Rightarrow>
                      Inr (at_id i (\<lambda>t. Layer ((fieldsOf t)\<lparr>states := states l1\<rparr>) (children t)) r1,
                           g1, pend))))"

text \<open>The render functions, run after the \<^verbatim>\<open>await\<close>: \<^verbatim>\<open>state.texture = texture\<close>.\<close>

definition commit_one :: "string \<times> nat \<times> nat \<Rightarrow> lfields \<Rightarrow> lfields" where
  "commit_one c l =
     (case c of
        (k, h, t) \<Rightarrow>
          l\<lparr>states := map (\<lambda>(k', hs). if k' = k \<and> h < length hs
                                         then (k', hs[h := (hs ! h)\<lparr>texture := Some t\<rparr>])
                                         else (k', hs)) (states l)\<rparr>)"

definition rasterize_commit :: "(string \<times> nat \<times> nat) list \<Rightarrow> nat \<Rightarrow> layer \<Rightarrow> layer" where
  "rasterize_commit pend i rootL =
     at_id i (\<lambda>t. Layer (fold commit_one pend (fieldsOf t)) (children t)) rootL"

text \<open>
  \<^verbatim>\<open>_scheduleRasterizations\<close>: one turn of the loop, \<^verbatim>\<open>queue.shift()._rasterize()\<close>.
\<close>

definition rasterize_next ::
  "(nat \<Rightarrow> string \<Rightarrow> nat \<Rightarrow> bounds) \<Rightarrow> mrecord list \<Rightarrow> dtree list \<Rightarrow> layer \<Rightarrow> glob
     \<Rightarrow> error + (layer \<times> glob \<times> (string \<times> nat \<times> nat) list)" where
  "rasterize_next probe records doc rootL g =
     (case queue g of
        [] \<Rightarrow> Inr (rootL, g, [])
      | i # rest \<Rightarrow> rasterize (probe i) records doc i rootL (g\<lparr>queue := rest\<rparr>))"

section \<open>A worked example: a root element with one marked child\<close>

definition mk_elem :: "string option \<Rightarrow> nat option option \<Rightarrow> string option \<Rightarrow> bounds \<Rightarrow> elem" where
  "mk_elem cls la sts b = \<lparr>nodeName = ''DIV'', classAttr = cls, layerAttr = la, statesAttr = sts,
      hoverDepthParsed = Some 0, pixelRatioParsed = Some 1, elBounds = b\<rparr>"

definition mk_bounds :: "real \<Rightarrow> real \<Rightarrow> real \<Rightarrow> real \<Rightarrow> bounds" where
  "mk_bounds l t w h = \<lparr>bleft = l, btop = t, bwidth = w, bheight = h\<rparr>"

definition ex_doc :: "dtree list" where
  "ex_doc = [DNode 10 [DNode 11 []]]"

definition ex_elems :: "nat \<Rightarrow> elem" where
  "ex_elems e = (if e = 10 then mk_elem None None None (mk_bounds 20 10 200 100)
                 else mk_elem None (Some None) None (mk_bounds 40 30 100 50))"

definition ex_glob0 :: glob where
  "ex_glob0 = \<lparr>elems = ex_elems, queue = [], nextId = 1, disposed = [], isUpdating = False,
               devicePixelRatio = 1, nextTexture = 0\<rparr>"

definition ex_root :: layer where
  "ex_root = fst (new_root 10 None None ex_glob0)"

definition ex_glob :: glob where
  "ex_glob = snd (new_root 10 None None ex_glob0)"

definition result_of :: "(error + 'a) option \<Rightarrow> 'a option" where
  "result_of r = (case r of Some (Inr x) \<Rightarrow> Some x | _ \<Rightarrow> None)"

definition refresh_again :: "nat \<Rightarrow> dtree list \<Rightarrow> (layer \<times> glob) option \<Rightarrow> (layer \<times> glob) option" where
  "refresh_again n doc r =
     (case r of None \<Rightarrow> None | Some (t, g) \<Rightarrow> result_of (refresh n False doc None t g))"

definition ex_first :: "(layer \<times> glob) option" where
  "ex_first = result_of (refresh 3 False ex_doc None ex_root ex_glob)"

text \<open>The same tree with a root element of zero width.\<close>

definition zex_elems :: "nat \<Rightarrow> elem" where
  "zex_elems e = (if e = 10 then mk_elem None None None (mk_bounds 20 10 0 100)
                  else mk_elem None (Some None) None (mk_bounds 40 30 100 50))"

definition zex_start :: "layer \<times> glob" where
  "zex_start = new_root 10 None None (ex_glob0\<lparr>elems := zex_elems\<rparr>)"

definition zex_after :: "layer \<times> glob" where
  "zex_after = (case result_of (refresh 3 False ex_doc None (fst zex_start) (snd zex_start)) of
                  Some x \<Rightarrow> x | None \<Rightarrow> zex_start)"

definition zex_probe :: "string \<Rightarrow> nat \<Rightarrow> bounds" where
  "zex_probe k h = mk_bounds 20 10 0 100"






text \<open>
  A root whose element declares the state \<^verbatim>\<open>a\<close>, and the DOM change that takes the
  declaration away.
\<close>

definition bex_doc :: "dtree list" where
  "bex_doc = [DNode 10 []]"

definition bex_elems :: "nat \<Rightarrow> elem" where
  "bex_elems e = mk_elem None None (Some ''a'') (mk_bounds 0 0 500 150)"

definition bex_start :: "layer \<times> glob" where
  "bex_start = new_root 10 None None (ex_glob0\<lparr>elems := bex_elems\<rparr>)"

definition drop_states_attr :: "nat \<Rightarrow> glob \<Rightarrow> glob" where
  "drop_states_attr e g = g\<lparr>elems := (elems g)(e := (elems g e)\<lparr>statesAttr := None\<rparr>)\<rparr>"

definition thrown :: "(error + 'a) option \<Rightarrow> error option" where
  "thrown r = (case r of Some (Inl e) \<Rightarrow> Some e | _ \<Rightarrow> None)"

text \<open>
  The example tree after its first \<^verbatim>\<open>refresh\<close>, a change of a class attribute, and
  the \<^verbatim>\<open>needsRasterize\<close> flags of a tree, a layer before its children.
\<close>

definition ex_after :: "layer \<times> glob" where
  "ex_after = (case ex_first of Some x \<Rightarrow> x | None \<Rightarrow> (ex_root, ex_glob))"

definition set_class :: "nat \<Rightarrow> string option \<Rightarrow> glob \<Rightarrow> glob" where
  "set_class e v g = g\<lparr>elems := (elems g)(e := (elems g e)\<lparr>classAttr := v\<rparr>)\<rparr>"

definition flags :: "layer \<Rightarrow> bool list" where
  "flags t = map needsRasterize (layers_of t)"

text \<open>
  Two relations between a tree before and after an operation. \<open>persists t t'\<close>: every
  layer of \<open>t\<close> is still in \<open>t'\<close> (by its id), and marked for removal there if it was
  in \<open>t\<close>. \<open>stems_from t' t\<close>: every layer of \<open>t'\<close> was in \<open>t\<close>, with the same
  removal flag and the same state cache.
\<close>

definition persists :: "layer \<Rightarrow> layer \<Rightarrow> bool" where
  "persists t t' =
     list_all (\<lambda>l. list_ex (\<lambda>l'. lid l' = lid l \<and> (needsRemoval l \<longrightarrow> needsRemoval l'))
                       (layers_of t'))
              (layers_of t)"

definition same_identity :: "lfields \<Rightarrow> lfields \<Rightarrow> bool" where
  "same_identity l l' = (lid l' = lid l \<and> needsRemoval l' = needsRemoval l \<and> states l' = states l)"

definition stems_from :: "layer \<Rightarrow> layer \<Rightarrow> bool" where
  "stems_from t' t = list_all (\<lambda>l'. list_ex (\<lambda>l. same_identity l l') (layers_of t)) (layers_of t')"

text \<open>
  The example continued: the child is rasterized, its element leaves the DOM, the
  child-list record is processed and the root is updated. And the example tree with
  its child marked for removal.
\<close>

definition raster_probe :: "string \<Rightarrow> nat \<Rightarrow> bounds" where
  "raster_probe k h = mk_bounds 40 30 100 50"






definition marked_tree :: layer where
  "marked_tree = mark_id 7 (fst ex_after)"

definition marked_child :: layer where
  "marked_child = (case subtree_at 7 marked_tree of Some s \<Rightarrow> s | None \<Rightarrow> marked_tree)"

definition flagged :: "nat \<Rightarrow> layer \<Rightarrow> bool" where
  "flagged i t = list_ex (\<lambda>l. lid l = i \<and> needsRemoval l) (layers_of t)"

text \<open>
  A switch of the class attribute of an element, as the layer tree meets it: the
  attribute changes, the observer hands the class record with the old value to
  \<^verbatim>\<open>_processMutations\<close>, and the tree is refreshed. \<open>texture_cache\<close> is the state
  cache reduced to its textures.
\<close>

definition switch_class ::
  "dtree list \<Rightarrow> nat \<Rightarrow> nat \<Rightarrow> string option \<Rightarrow> layer \<times> glob \<Rightarrow> (error + (layer \<times> glob)) option" where
  "switch_class doc n e v s =
     (case s of
        (t, g) \<Rightarrow>
          (let g1 = set_class e v g;
               t1 = processMutations doc g1 [ClassRec e (classAttr (elems g e))] t
           in refresh n False doc None t1 g1))"

definition texture_cache :: "lfields \<Rightarrow> (string \<times> nat option list) list" where
  "texture_cache l = map (\<lambda>(k, hs). (k, map texture hs)) (states l)"

text \<open>
  What a \<^verbatim>\<open>refresh\<close> with nothing to rasterize leaves of a layer: its id and element,
  and, when the state cache held the declared states of the element, the cached
  textures, the keys of the cache and the hover depth, with the current state read
  from the class list.
\<close>

definition resumed :: "(nat \<Rightarrow> elem) \<Rightarrow> lfields \<Rightarrow> lfields \<Rightarrow> bool" where
  "resumed els f f' =
     (lid f' = lid f \<and> element f' = element f
      \<and> (fst ` set (states f) = set (declared_states (els (element f))) \<longrightarrow>
           texture_cache f' = texture_cache f
           \<and> map fst (states f') = map fst (states f)
           \<and> state f' = current_state (classList (els (element f)))
                          (declared_states (els (element f)))
           \<and> hover f' = hover f))"

text \<open>
  The example tree with a child that declares the state \<^verbatim>\<open>a\<close> and has the class
  \<^verbatim>\<open>a\<close>: refreshed, both layers rasterized from the queue, then the child switched to
  the default state. \<open>rt_view\<close> shows the child (id 7): its state and texture, then
  the queue and the flags of the tree.
\<close>

definition rt_elems :: "nat \<Rightarrow> elem" where
  "rt_elems e = (if e = 10 then mk_elem None None None (mk_bounds 20 10 200 100)
                 else mk_elem (Some ''a'') (Some None) (Some ''a'') (mk_bounds 40 30 100 50))"

definition rt0 :: "layer \<times> glob" where
  "rt0 = (case new_root 10 None None (ex_glob0\<lparr>elems := rt_elems\<rparr>) of
            (t, g) \<Rightarrow> (case result_of (refresh 3 False ex_doc None t g) of
                         Some x \<Rightarrow> x | None \<Rightarrow> (t, g)))"

definition rasterize_step :: "layer \<times> glob \<Rightarrow> layer \<times> glob" where
  "rasterize_step x =
     (case queue (snd x) of
        [] \<Rightarrow> x
      | i # rest \<Rightarrow>
          (case rasterize_next (\<lambda>i. raster_probe) [] ex_doc (fst x) (snd x) of
             Inr (t, g, pend) \<Rightarrow> (rasterize_commit pend i t, g)
           | Inl e \<Rightarrow> x))"

definition rt_start :: "layer \<times> glob" where
  "rt_start = rasterize_step (rasterize_step rt0)"

definition rt_mid :: "layer \<times> glob" where
  "rt_mid = (case result_of (switch_class ex_doc 3 11 (Some []) rt_start) of
               Some x \<Rightarrow> x | None \<Rightarrow> rt_start)"

definition rt_view ::
  "layer \<times> glob \<Rightarrow> (string \<times> (error + nat option)) option \<times> nat list \<times> bool list" where
  "rt_view x = (map_option (\<lambda>l. (state l, texture_getter l)) (lookup_layer 7 (fst x)),
                queue (snd x), flags (fst x))"

definition zero_size :: "bounds \<Rightarrow> bool" where
  "zero_size b = (bwidth b = 0 \<or> bheight b = 0)"

text \<open>The fields that the layout and the mesh update leave alone.\<close>

definition kept :: "lfields \<Rightarrow> lfields \<Rightarrow> bool" where
  "kept f f' = (needsRasterize f' = needsRasterize f \<and> needsRemoval f' = needsRemoval f
      \<and> states f' = states f \<and> state f' = state f \<and> hover f' = hover f
      \<and> lid f' = lid f \<and> element f' = element f \<and> useDOMLayout f' = useDOMLayout f
      \<and> level f' = level f \<and> layerSeparation f' = layerSeparation f
      \<and> childLayers f' = childLayers f \<and> rootLayer f' = rootLayer f
      \<and> resizeObserver f' = resizeObserver f \<and> mutationObserver f' = mutationObserver f)"

section \<open>Properties of the traversals\<close>

lemma each_layer_inv:
  assumes "each_layer h cs g = Some (Inr (cs', g'))"
    and "I g"
    and "\<And>c g0 c' g1. c \<in> set cs \<Longrightarrow> I g0 \<Longrightarrow> h c g0 = Some (Inr (c', g1)) \<Longrightarrow> Q c' \<and> I g1"
  shows "(\<forall>c' \<in> set cs'. Q c') \<and> I g'"
  using assms
proof (induction cs arbitrary: g cs' g')
  case Nil
  then show ?case by simp
next
  case (Cons c cs)
  from Cons.prems(1) obtain c1 g1 cs1 where
    h: "h c g = Some (Inr (c1, g1))" and r: "each_layer h cs g1 = Some (Inr (cs1, g'))"
    and e: "cs' = c1 # cs1"
    by (auto split: option.splits sum.splits prod.splits)
  have 1: "Q c1 \<and> I g1" using Cons.prems(3)[OF _ Cons.prems(2) h] by simp
  have 2: "(\<forall>c' \<in> set cs1. Q c') \<and> I g'"
  proof (rule Cons.IH[OF r])
    show "I g1" using 1 by simp
  next
    fix c0 g0 c' g2
    assume "c0 \<in> set cs" "I g0" "h c0 g0 = Some (Inr (c', g2))"
    then show "Q c' \<and> I g2" using Cons.prems(3)[of c0 g0 c' g2] by simp
  qed
  show ?case using 1 2 e by auto
qed

lemma traverseKids_inv:
  assumes "P s" and "\<And>e l s. P s \<Longrightarrow> P (snd (each e l s))"
  shows "P (traverseKids each lvl ts s)"
  using assms
proof (induction each lvl ts s rule: traverseKids.induct)
  case (1 each lvl s)
  then show ?case by simp
next
  case (2 each lvl e cs rest s)
  obtain go s1 where es: "each e (Suc lvl) s = (go, s1)" by (cases "each e (Suc lvl) s")
  have step: "\<And>e l s. P s \<Longrightarrow> P (snd (each e l s))" using "2.prems"(2) by blast
  have p1: "P s1" using step[OF "2.prems"(1), of e "Suc lvl"] es by simp
  show ?case
  proof (cases go)
    case True
    have "P (traverseKids each (Suc lvl) cs s1)" using "2.IH"(1) es True p1 step by auto
    then show ?thesis using "2.IH"(2) es True step by auto
  next
    case False
    then show ?thesis using "2.IH"(2) es p1 step by auto
  qed
qed


lemma tryConvert_fields:
  assumes "\<exists>X. fieldsOf (fst s) = f0\<lparr>childLayers := X\<rparr>"
  shows "\<exists>X. fieldsOf (fst (snd (tryConvertToWebLayer3D el lvl s))) = f0\<lparr>childLayers := X\<rparr>"
proof -
  obtain f cs g where s: "s = (Layer f cs, g)" by (cases s, cases "fst s") auto
  from assms s obtain X where X: "f = f0\<lparr>childLayers := X\<rparr>" by auto
  show ?thesis
    unfolding s tryConvertToWebLayer3D_def
    by (auto simp: X Let_def split: option.splits prod.splits)
qed

lemma mark_id_fields:
  "\<exists>Y. fieldsOf (mark_id i t) = (fieldsOf t)\<lparr>needsRemoval := Y\<rparr>"
proof (cases t)
  case (Layer f cs)
  show ?thesis
  proof (cases "lid f = i")
    case True
    then show ?thesis using Layer by (auto intro: exI[of _ True])
  next
    case False
    then show ?thesis using Layer by (auto intro: exI[of _ "needsRemoval f"])
  qed
qed

lemma mark_absent_fields:
  "\<exists>Y. fieldsOf (mark_absent old t) = (fieldsOf t)\<lparr>needsRemoval := Y\<rparr>"
proof (induction old arbitrary: t)
  case Nil
  show ?case by (auto intro: exI[of _ "needsRemoval (fieldsOf t)"])
next
  case (Cons c old)
  let ?t1 = "if c \<notin> set (childLayers (fieldsOf t)) then mark_id c t else t"
  have "\<exists>Y1. fieldsOf ?t1 = (fieldsOf t)\<lparr>needsRemoval := Y1\<rparr>"
  proof (cases "c \<notin> set (childLayers (fieldsOf t))")
    case True
    then show ?thesis using mark_id_fields[of c t] by simp
  next
    case False
    then show ?thesis by (auto intro: exI[of _ "needsRemoval (fieldsOf t)"])
  qed
  then obtain Y1 where 1: "fieldsOf ?t1 = (fieldsOf t)\<lparr>needsRemoval := Y1\<rparr>" by blast
  obtain Y2 where 2: "fieldsOf (mark_absent old ?t1) = (fieldsOf ?t1)\<lparr>needsRemoval := Y2\<rparr>"
    using Cons.IH[of ?t1] by blast
  have "fieldsOf (mark_absent (c # old) t) = (fieldsOf t)\<lparr>needsRemoval := Y2\<rparr>"
    using 2 unfolding 1 by simp
  then show ?case by blast
qed

lemma updateChildLayers_fields:
  assumes "updateChildLayers doc (Layer f cs) g = (t', g')"
  shows "\<exists>X Y. fieldsOf t' = f\<lparr>childLayers := X, needsRemoval := Y\<rparr>"
proof -
  let ?s0 = "(Layer (f\<lparr>childLayers := []\<rparr>) cs, g)"
  let ?s1 = "traverseDOM doc (element f) tryConvertToWebLayer3D (level f) ?s0"
  have "\<exists>X. fieldsOf (fst ?s1) = f\<lparr>childLayers := X\<rparr>"
    unfolding traverseDOM_def
    by (auto split: option.splits intro!: traverseKids_inv[where P="\<lambda>s. \<exists>X. fieldsOf (fst s) = f\<lparr>childLayers := X\<rparr>"] tryConvert_fields)
  then obtain X where X: "fieldsOf (fst ?s1) = f\<lparr>childLayers := X\<rparr>" by blast
  obtain Y where Y: "fieldsOf (mark_absent (childLayers f) (fst ?s1)) = (fieldsOf (fst ?s1))\<lparr>needsRemoval := Y\<rparr>"
    using mark_absent_fields by blast
  have "t' = mark_absent (childLayers f) (fst ?s1)"
    using assms unfolding updateChildLayers_def by (auto simp: Let_def split: prod.splits)
  then show ?thesis using X Y by auto
qed

section \<open>Properties of the state cache and the bounds\<close>

lemma map_of_map_upd:
  "map_of (map (\<lambda>(k, hs). if k = ck then (k, F hs) else (k, hs)) st) k' =
     (if k' = ck then map_option F (map_of st k') else map_of st k')"
  by (induction st) auto

lemma current_slot_write:
  assumes "current_slot l = Inr s"
  shows "current_slot (write_slot_bounds l b) = Inr (s\<lparr>sbounds := Some b\<rparr>)"
proof -
  let ?F = "\<lambda>hs. hs[current_index l hs := (hs ! current_index l hs)\<lparr>sbounds := Some b\<rparr>]"
  let ?l' = "write_slot_bounds l b"
  have st: "state ?l' = state l" "hover ?l' = hover l" by (simp_all add: write_slot_bounds_def)
  have mo: "\<And>k'. map_of (states ?l') k' =
      (if k' = current_key l then map_option ?F (map_of (states l) k') else map_of (states l) k')"
    unfolding write_slot_bounds_def by (simp add: map_of_map_upd)
  from assms obtain hs where hs: "current_hoverStates l = Some hs"
    by (auto simp: current_slot_def split: option.splits)
  have ck: "map_of (states l) (current_key l) = Some hs"
    using hs by (auto simp: current_hoverStates_def current_key_def split: option.splits)
  have hs': "current_hoverStates ?l' = Some (?F hs)"
    using hs ck unfolding current_hoverStates_def st
    by (auto simp: mo current_key_def split: option.splits if_splits)
  show ?thesis
    using assms hs
    unfolding current_slot_def hs' st
    by (auto simp: nth_opt_def current_index_def split: option.splits if_splits)
qed

lemma updateBounds_getter:
  assumes "updateBounds f g = Inr f2"
  shows "bounds_getter f2 = Inr (Some (elBounds (elems g (element f))))"
proof -
  from assms obtain s where s: "current_slot f = Inr s"
    and f2: "f2 = write_slot_bounds f (elBounds (elems g (element f)))"
    by (auto simp: updateBounds_def bounds_getter_def split: sum.splits)
  show ?thesis unfolding f2 bounds_getter_def using current_slot_write[OF s] by simp
qed

lemma updateBounds_texture:
  assumes "updateBounds f g = Inr f2"
  shows "texture_getter f2 = texture_getter f"
proof -
  from assms obtain s where s: "current_slot f = Inr s"
    and f2: "f2 = write_slot_bounds f (elBounds (elems g (element f)))"
    by (auto simp: updateBounds_def bounds_getter_def split: sum.splits)
  show ?thesis unfolding f2 texture_getter_def using current_slot_write[OF s] s by simp
qed

lemma updateBounds_fields:
  assumes "updateBounds f g = Inr f2"
  shows "\<exists>ss. f2 = f\<lparr>states := ss\<rparr>"
  using assms by (auto simp: updateBounds_def write_slot_bounds_def split: sum.splits)

lemma updateState_fields:
  assumes "updateState f g = Inr (f1, g1)"
  shows "\<exists>pr dep st ss d. f1 = f\<lparr>pixelRatio := pr, hoverDepth := dep, state := st, states := ss\<rparr>
           \<and> g1 = g\<lparr>disposed := d\<rparr>"
  using assms by (auto simp: updateState_def Let_def split: sum.splits prod.splits)

section \<open>Properties of \<^verbatim>\<open>refresh\<close>\<close>

lemma current_slot_cong:
  "states a = states b \<Longrightarrow> state a = state b \<Longrightarrow> hover a = hover b \<Longrightarrow> current_slot a = current_slot b"
  unfolding current_slot_def current_hoverStates_def by (simp cong: option.case_cong)

lemma refresh_head_Inr:
  "refresh_head force doc (Layer f cs) g = Inr (t3, g3) \<longleftrightarrow>
     (\<exists>f1 g1 f2. updateState f g = Inr (f1, g1) \<and> updateBounds f1 g1 = Inr f2 \<and>
        (if needsRasterize f2 \<or> force
         then (\<exists>g'. updateChildLayers doc (Layer (f2\<lparr>needsRasterize := False\<rparr>) cs) g1 = (t3, g')
                   \<and> g3 = enqueue (lid f2) g')
         else t3 = Layer f2 cs \<and> g3 = g1))"
proof (cases "updateState f g")
  case (Inl e)
  then show ?thesis by (simp add: refresh_head_def)
next
  case (Inr p)
  obtain f1 g1 where p: "p = (f1, g1)" by (cases p)
  show ?thesis
  proof (cases "updateBounds f1 g1")
    case (Inl e)
    then show ?thesis using Inr p by (simp add: refresh_head_def)
  next
    case ub: (Inr f2)
    obtain t' g' where uc: "updateChildLayers doc (Layer (f2\<lparr>needsRasterize := False\<rparr>) cs) g1 = (t', g')"
      by (cases "updateChildLayers doc (Layer (f2\<lparr>needsRasterize := False\<rparr>) cs) g1")
    show ?thesis using Inr p ub uc by (auto simp add: refresh_head_def)
  qed
qed


lemma refresh_head_fields:
  assumes "refresh_head force doc (Layer f cs) g = Inr (t3, g3)"
  shows "\<exists>pr dep st ss X Y. fieldsOf t3 =
           f\<lparr>pixelRatio := pr, hoverDepth := dep, state := st, states := ss,
             needsRasterize := False, childLayers := X, needsRemoval := Y\<rparr>"
proof -
  from assms[unfolded refresh_head_Inr] obtain f1 g1 f2 where
    us: "updateState f g = Inr (f1, g1)" and ub: "updateBounds f1 g1 = Inr f2"
    and br: "if needsRasterize f2 \<or> force
         then (\<exists>g'. updateChildLayers doc (Layer (f2\<lparr>needsRasterize := False\<rparr>) cs) g1 = (t3, g')
                   \<and> g3 = enqueue (lid f2) g')
         else t3 = Layer f2 cs \<and> g3 = g1" by blast
  from updateState_fields[OF us] obtain pr dep st ss0 where
    f1: "f1 = f\<lparr>pixelRatio := pr, hoverDepth := dep, state := st, states := ss0\<rparr>" by blast
  from updateBounds_fields[OF ub] obtain ss where f2: "f2 = f1\<lparr>states := ss\<rparr>" by blast
  have f2': "f2 = f\<lparr>pixelRatio := pr, hoverDepth := dep, state := st, states := ss\<rparr>"
    unfolding f2 f1 by simp
  show ?thesis
  proof (cases "needsRasterize f2 \<or> force")
    case True
    with br obtain g' where uc: "updateChildLayers doc (Layer (f2\<lparr>needsRasterize := False\<rparr>) cs) g1 = (t3, g')"
      by auto
    from updateChildLayers_fields[OF uc] obtain X Y where
      "fieldsOf t3 = f2\<lparr>needsRasterize := False, childLayers := X, needsRemoval := Y\<rparr>" by auto
    then show ?thesis unfolding f2' by blast
  next
    case False
    with br have t3: "t3 = Layer f2 cs" by simp
    have "f2 = f2\<lparr>needsRasterize := False, childLayers := childLayers f2, needsRemoval := needsRemoval f2\<rparr>"
      using False by simp
    then have "fieldsOf t3 = f2\<lparr>needsRasterize := False, childLayers := childLayers f2, needsRemoval := needsRemoval f2\<rparr>"
      unfolding t3 by simp
    then show ?thesis unfolding f2' by blast
  qed
qed

lemma refresh_head_clean:
  assumes "refresh_head False doc (Layer f cs) g = Inr (t3, g3)" and "\<not> needsRasterize f"
  shows "queue g3 = queue g \<and> children t3 = cs"
proof -
  from assms(1)[unfolded refresh_head_Inr] obtain f1 g1 f2 where
    us: "updateState f g = Inr (f1, g1)" and ub: "updateBounds f1 g1 = Inr f2"
    and br: "if needsRasterize f2 \<or> False
         then (\<exists>g'. updateChildLayers doc (Layer (f2\<lparr>needsRasterize := False\<rparr>) cs) g1 = (t3, g')
                   \<and> g3 = enqueue (lid f2) g')
         else t3 = Layer f2 cs \<and> g3 = g1" by blast
  from updateState_fields[OF us] obtain pr dep st ss0 d where
    f1: "f1 = f\<lparr>pixelRatio := pr, hoverDepth := dep, state := st, states := ss0\<rparr>"
    and g1: "g1 = g\<lparr>disposed := d\<rparr>" by blast
  from updateBounds_fields[OF ub] obtain ss where f2: "f2 = f1\<lparr>states := ss\<rparr>" by blast
  have "\<not> needsRasterize f2" using assms(2) unfolding f2 f1 by simp
  with br have "t3 = Layer f2 cs" "g3 = g1" by simp_all
  then show ?thesis using g1 by simp
qed

lemma refresh_head_bounds:
  assumes "refresh_head force doc (Layer f cs) g = Inr (t3, g3)"
  shows "bounds_getter (fieldsOf t3) = Inr (Some (elBounds (elems g (element f))))"
proof -
  from assms[unfolded refresh_head_Inr] obtain f1 g1 f2 where
    us: "updateState f g = Inr (f1, g1)" and ub: "updateBounds f1 g1 = Inr f2"
    and br: "if needsRasterize f2 \<or> force
         then (\<exists>g'. updateChildLayers doc (Layer (f2\<lparr>needsRasterize := False\<rparr>) cs) g1 = (t3, g')
                   \<and> g3 = enqueue (lid f2) g')
         else t3 = Layer f2 cs \<and> g3 = g1" by blast
  from updateState_fields[OF us] obtain pr dep st ss0 d where
    f1: "f1 = f\<lparr>pixelRatio := pr, hoverDepth := dep, state := st, states := ss0\<rparr>"
    and g1: "g1 = g\<lparr>disposed := d\<rparr>" by blast
  have e: "element f1 = element f" "elems g1 = elems g" unfolding f1 g1 by simp_all
  have b2: "bounds_getter f2 = Inr (Some (elBounds (elems g (element f))))"
    using updateBounds_getter[OF ub] e by simp
  have "current_slot (fieldsOf t3) = current_slot f2"
  proof (cases "needsRasterize f2 \<or> force")
    case True
    with br obtain g' where uc: "updateChildLayers doc (Layer (f2\<lparr>needsRasterize := False\<rparr>) cs) g1 = (t3, g')"
      by auto
    from updateChildLayers_fields[OF uc] obtain X Y where
      "fieldsOf t3 = f2\<lparr>needsRasterize := False, childLayers := X, needsRemoval := Y\<rparr>" by auto
    then show ?thesis by (intro current_slot_cong) simp_all
  next
    case False
    with br show ?thesis by simp
  qed
  then show ?thesis using b2 by (simp add: bounds_getter_def)
qed

lemma updateTargetLayout_kept:
  assumes "updateTargetLayout parent f = Inr f5"
  shows "kept f f5 \<and> meshParent f5 = meshParent f \<and> materialMap f5 = materialMap f"
  using assms
  unfolding updateTargetLayout_def layout_reset_def layout_finish_def Let_def kept_def
  by (auto split: if_splits sum.splits option.splits)

lemma updateMesh_kept:
  assumes "updateMesh parent f = Inr f6"
  shows "kept f f6"
proof (cases "texture_getter f")
  case (Inl e)
  then show ?thesis using assms by (simp add: updateMesh_def)
next
  case (Inr to)
  show ?thesis
  proof (cases to)
    case None
    then show ?thesis using assms Inr by (simp add: updateMesh_def kept_def)
  next
    case (Some t)
    show ?thesis
    proof (cases "meshParent f")
      case True
      then show ?thesis using assms Inr Some by (auto simp add: updateMesh_def kept_def)
    next
      case False
      then obtain l2 where l2: "updateTargetLayout parent (f\<lparr>materialMap := Some t, meshParent := True\<rparr>) = Inr l2"
        and f6: "f6 = l2\<lparr>content_position := contentTarget_position l2, content_scale := contentTarget_scale l2\<rparr>"
        using assms Inr Some by (auto simp: updateMesh_def split: sum.splits)
      from updateTargetLayout_kept[OF l2] show ?thesis unfolding f6 kept_def by simp
    qed
  qed
qed

lemma refresh_tail_kept:
  assumes "refresh_tail parent f = Inr f6"
  shows "kept f f6"
proof -
  from assms obtain f5 where a: "updateTargetLayout parent f = Inr f5" and b: "updateMesh parent f5 = Inr f6"
    by (auto simp: refresh_tail_def split: sum.splits)
  from updateTargetLayout_kept[OF a] updateMesh_kept[OF b] show ?thesis by (simp add: kept_def)
qed

lemma refresh_Suc_Inr:
  assumes "refresh (Suc n) force doc parent t g = Some (Inr (t', g'))"
  obtains t3 g3 cs' f6 where
    "refresh_head force doc t g = Inr (t3, g3)"
    "each_layer (refresh n force doc (Some (fieldsOf t3))) (children t3) g3 = Some (Inr (cs', g'))"
    "refresh_tail parent (fieldsOf t3) = Inr f6"
    "t' = Layer f6 cs'"
proof (cases "refresh_head force doc t g")
  case (Inl e)
  then show ?thesis using assms by (simp add: refresh.simps)
next
  case (Inr p)
  obtain t3 g3 where p: "p = (t3, g3)" by (cases p)
  show ?thesis
  proof (cases "each_layer (refresh n force doc (Some (fieldsOf t3))) (children t3) g3")
    case None
    then show ?thesis using assms Inr p by (simp add: refresh.simps)
  next
    case (Some r)
    show ?thesis
    proof (cases r)
      case (Inl e)
      then show ?thesis using assms Inr p Some by (simp add: refresh.simps)
    next
      case r: (Inr q)
      obtain cs' g4 where q: "q = (cs', g4)" by (cases q)
      show ?thesis
      proof (cases "refresh_tail parent (fieldsOf t3)")
        case (Inl e)
        then show ?thesis using assms Inr p Some r q by (simp add: refresh.simps)
      next
        case tl: (Inr f6)
        have "t' = Layer f6 cs'" "g' = g4" using assms Inr p Some r q tl by (simp_all add: refresh.simps)
        then show ?thesis using that[of t3 g3 cs' f6] Inr p Some r q tl by simp
      qed
    qed
  qed
qed

lemma refresh_clears:
  "refresh n force doc parent t g = Some (Inr (t', g')) \<Longrightarrow>
     \<forall>l \<in> set (layers_of t'). \<not> needsRasterize l"
proof (induction n arbitrary: parent t g t' g')
  case 0
  then show ?case by (simp add: refresh.simps)
next
  case (Suc n)
  obtain f cs where t: "t = Layer f cs" by (cases t)
  from refresh_Suc_Inr[OF Suc.prems] obtain t3 g3 cs' f6 where
    hd: "refresh_head force doc t g = Inr (t3, g3)"
    and el: "each_layer (refresh n force doc (Some (fieldsOf t3))) (children t3) g3 = Some (Inr (cs', g'))"
    and tl: "refresh_tail parent (fieldsOf t3) = Inr f6"
    and t': "t' = Layer f6 cs'" by blast
  from refresh_head_fields[OF hd[unfolded t]] have "\<not> needsRasterize (fieldsOf t3)" by auto
  with refresh_tail_kept[OF tl] have top: "\<not> needsRasterize f6" by (simp add: kept_def)
  have "(\<forall>c' \<in> set cs'. \<forall>l \<in> set (layers_of c'). \<not> needsRasterize l) \<and> True"
    by (rule each_layer_inv[OF el, where I="\<lambda>_. True"]) (use Suc.IH in auto)
  then show ?case using top unfolding t' by auto
qed

lemma refresh_clean_queue:
  "refresh n False doc parent t g = Some (Inr (t', g')) \<Longrightarrow>
   \<forall>l \<in> set (layers_of t). \<not> needsRasterize l \<Longrightarrow> queue g' = queue g"
proof (induction n arbitrary: parent t g t' g')
  case 0
  then show ?case by (simp add: refresh.simps)
next
  case (Suc n)
  obtain f cs where t: "t = Layer f cs" by (cases t)
  from refresh_Suc_Inr[OF Suc.prems(1)] obtain t3 g3 cs' f6 where
    hd: "refresh_head False doc t g = Inr (t3, g3)"
    and el: "each_layer (refresh n False doc (Some (fieldsOf t3))) (children t3) g3 = Some (Inr (cs', g'))"
    and tl: "refresh_tail parent (fieldsOf t3) = Inr f6"
    and t': "t' = Layer f6 cs'" by blast
  have nf: "\<not> needsRasterize f" using Suc.prems(2) t by simp
  from refresh_head_clean[OF hd[unfolded t] nf] have q3: "queue g3 = queue g" and c3: "children t3 = cs"
    by simp_all
  have "(\<forall>c' \<in> set cs'. True) \<and> queue g' = queue g"
  proof (rule each_layer_inv[OF el, where I="\<lambda>x. queue x = queue g"])
    show "queue g3 = queue g" by (rule q3)
  next
    fix c g0 c' g1
    assume c: "c \<in> set (children t3)" and i: "queue g0 = queue g"
      and r: "refresh n False doc (Some (fieldsOf t3)) c g0 = Some (Inr (c', g1))"
    have "\<forall>l \<in> set (layers_of c). \<not> needsRasterize l" using Suc.prems(2) c c3 t by auto
    from Suc.IH[OF r this] i show "True \<and> queue g1 = queue g" by simp
  qed
  then show ?case by simp
qed

lemma result_ofD: "result_of r = Some x \<Longrightarrow> r = Some (Inr x)"
  by (auto simp: result_of_def split: option.splits sum.splits)

section \<open>Properties of the target layout\<close>

lemma bounds_getter_cong:
  "states a = states b \<Longrightarrow> state a = state b \<Longrightarrow> hover a = hover b \<Longrightarrow> bounds_getter a = bounds_getter b"
  unfolding bounds_getter_def by (simp add: current_slot_cong[of a b])

lemma texture_getter_cong:
  "states a = states b \<Longrightarrow> state a = state b \<Longrightarrow> hover a = hover b \<Longrightarrow> texture_getter a = texture_getter b"
  unfolding texture_getter_def by (simp add: current_slot_cong[of a b])

lemma bounds_getter_reset: "bounds_getter (layout_reset f) = bounds_getter f"
  by (rule bounds_getter_cong) (simp_all add: layout_reset_def)

lemma updateTargetLayout_zero:
  assumes "bounds_getter f = Inr (Some b)" and "bwidth b = 0 \<or> bheight b = 0"
  shows "\<exists>f5. updateTargetLayout parent f = Inr f5 \<and> contentTargetOpacity f5 = 0"
  using assms unfolding updateTargetLayout_def Let_def bounds_getter_reset
  by auto



lemma updateMesh_zero:
  assumes "bounds_getter f = Inr (Some b)" and "bwidth b = 0 \<or> bheight b = 0"
    and "contentTargetOpacity f = 0" and "updateMesh parent f = Inr f6"
  shows "contentTargetOpacity f6 = 0"
proof (cases "texture_getter f")
  case (Inl e)
  then show ?thesis using assms by (simp add: updateMesh_def)
next
  case (Inr to)
  show ?thesis
  proof (cases to)
    case None
    then show ?thesis using assms Inr by (simp add: updateMesh_def)
  next
    case (Some t)
    show ?thesis
    proof (cases "meshParent f")
      case True
      then show ?thesis using assms Inr Some by (auto simp add: updateMesh_def)
    next
      case False
      let ?f1 = "f\<lparr>materialMap := Some t, meshParent := True\<rparr>"
      have "bounds_getter ?f1 = bounds_getter f" by (rule bounds_getter_cong) simp_all
      with assms(1) have b1: "bounds_getter ?f1 = Inr (Some b)" by simp
      from updateTargetLayout_zero[OF b1 assms(2), of parent] obtain f5 where
        u: "updateTargetLayout parent ?f1 = Inr f5" and z: "contentTargetOpacity f5 = 0" by blast
      have "f6 = f5\<lparr>content_position := contentTarget_position f5, content_scale := contentTarget_scale f5\<rparr>"
        using assms(4) Inr Some False u by (simp add: updateMesh_def)
      then show ?thesis using z by simp
    qed
  qed
qed


lemma refresh_tail_zero:
  assumes "bounds_getter f = Inr (Some b)" and "bwidth b = 0 \<or> bheight b = 0"
    and "refresh_tail parent f = Inr f6"
  shows "contentTargetOpacity f6 = 0"
proof -
  from updateTargetLayout_zero[OF assms(1,2), of parent] obtain f5 where
    u: "updateTargetLayout parent f = Inr f5" and z: "contentTargetOpacity f5 = 0" by blast
  have m: "updateMesh parent f5 = Inr f6" using assms(3) u by (simp add: refresh_tail_def)
  from updateTargetLayout_kept[OF u] have "bounds_getter f5 = bounds_getter f"
    by (intro bounds_getter_cong) (simp_all add: kept_def)
  with assms(1) have "bounds_getter f5 = Inr (Some b)" by simp
  from updateMesh_zero[OF this assms(2) z m] show ?thesis .
qed


section \<open>Properties of rasterization\<close>

lemma raster_hovers_skip:
  "raster_hovers probe hovers hs nt = Inr (hs', nt', pend) \<Longrightarrow>
     length hs' = length hs \<and>
     (\<forall>h. (bwidth (probe h) = 0 \<or> bheight (probe h) = 0) \<longrightarrow>
          hs' ! h = hs ! h \<and> h \<notin> fst ` set pend)"
proof (induction hovers arbitrary: hs nt hs' nt' pend)
  case Nil
  then show ?case by simp
next
  case (Cons h0 rest)
  from Cons.prems obtain st where st: "nth_opt hs h0 = Some st"
    by (auto split: option.splits)
  let ?nt1 = "case texture st of Some t \<Rightarrow> nt | None \<Rightarrow> Suc nt"
  let ?t = "case texture st of Some t \<Rightarrow> t | None \<Rightarrow> nt"
  show ?case
  proof (cases "bwidth (probe h0) = 0 \<or> bheight (probe h0) = 0")
    case True
    then have "raster_hovers probe rest hs ?nt1 = Inr (hs', nt', pend)"
      using Cons.prems st by (simp add: Let_def)
    from Cons.IH[OF this] show ?thesis .
  next
    case False
    then obtain pend0 where
      r: "raster_hovers probe rest (hs[h0 := st\<lparr>sbounds := Some (probe h0)\<rparr>]) ?nt1 = Inr (hs', nt', pend0)"
      and p: "pend = (h0, ?t) # pend0"
      using Cons.prems st by (auto simp: Let_def split: sum.splits)
    from Cons.IH[OF r] have
      l: "length hs' = length hs"
      and i: "\<forall>h. (bwidth (probe h) = 0 \<or> bheight (probe h) = 0) \<longrightarrow>
          hs' ! h = (hs[h0 := st\<lparr>sbounds := Some (probe h0)\<rparr>]) ! h \<and> h \<notin> fst ` set pend0"
      by simp_all
    show ?thesis
    proof (intro conjI allI impI)
      show "length hs' = length hs" by (rule l)
    next
      fix h assume z: "bwidth (probe h) = 0 \<or> bheight (probe h) = 0"
      then have ne: "h \<noteq> h0" using False by auto
      from i z have "hs' ! h = (hs[h0 := st\<lparr>sbounds := Some (probe h0)\<rparr>]) ! h" by blast
      then show "hs' ! h = hs ! h" using ne by simp
      from i z have "h \<notin> fst ` set pend0" by blast
      then show "h \<notin> fst ` set pend" using ne p by auto
    qed
  qed
qed

lemma raster_states_skip:
  "raster_states probe hovers st nt = Inr (st', nt', pend) \<Longrightarrow> distinct (map fst st) \<Longrightarrow>
   map_of st k = Some hs \<Longrightarrow> bwidth (probe k h) = 0 \<or> bheight (probe k h) = 0 \<Longrightarrow>
     map fst st' = map fst st \<and>
     (\<exists>hs'. map_of st' k = Some hs' \<and> length hs' = length hs \<and> hs' ! h = hs ! h) \<and>
     (\<forall>t. (k, h, t) \<notin> set pend)"
proof (induction st arbitrary: nt st' nt' pend)
  case Nil
  then show ?case by simp
next
  case (Cons a st)
  obtain k0 hs0 where a: "a = (k0, hs0)" by (cases a)
  from Cons.prems(1) a obtain hs1 nt1 pend1 rest' pend2 where
    h: "raster_hovers (probe k0) hovers hs0 nt = Inr (hs1, nt1, pend1)"
    and r: "raster_states probe hovers st nt1 = Inr (rest', nt', pend2)"
    and s': "st' = (k0, hs1) # rest'"
    and p: "pend = map (\<lambda>(h, t). (k0, h, t)) pend1 @ pend2"
    by (auto split: sum.splits prod.splits)
  have d: "distinct (map fst st)" and nk: "k0 \<notin> fst ` set st" using Cons.prems(2) a by auto
  show ?case
  proof (cases "k = k0")
    case True
    then have hs: "hs0 = hs" using Cons.prems(3) a by simp
    from raster_hovers_skip[OF h] Cons.prems(4) True have
      l: "length hs1 = length hs0" and e: "hs1 ! h = hs0 ! h" and n: "h \<notin> fst ` set pend1"
      by auto
    have m: "map fst rest' = map fst st"
      using r d
    proof (induction st arbitrary: nt1 rest' pend2)
      case Nil
      then show ?case by simp
    next
      case (Cons b st)
      then show ?case by (cases b) (auto split: sum.splits prod.splits)
    qed
    have "\<forall>t. (k, h, t) \<notin> set pend2"
    proof (intro allI notI)
      fix t assume "(k, h, t) \<in> set pend2"
      have "\<And>nt1 rest' pend2. raster_states probe hovers st nt1 = Inr (rest', nt', pend2) \<Longrightarrow>
              fst ` set pend2 \<subseteq> fst ` set st"
      proof (induction st)
        case Nil
        then show ?case by simp
      next
        case (Cons b st)
        obtain kb hb where b: "b = (kb, hb)" by (cases b)
        from Cons.prems b obtain ntb pb restb pb2 where
          "raster_states probe hovers st ntb = Inr (restb, nt', pb2)"
          and "pend2 = map (\<lambda>(h, t). (kb, h, t)) pb @ pb2"
          by (auto split: sum.splits prod.splits)
        with Cons.IH[of ntb restb pb2] b show ?case by (auto simp: image_iff) 
      qed
      from this[OF r] \<open>(k, h, t) \<in> set pend2\<close> have "k \<in> fst ` set st" by force
      with nk True show False by simp
    qed
    then show ?thesis using s' m a True l e n hs p by (auto simp: image_iff)
  next
    case False
    then have mo: "map_of st k = Some hs" using Cons.prems(3) a by simp
    from Cons.IH[OF r d mo Cons.prems(4)] show ?thesis
      using s' a False p by auto
  qed
qed

lemma raster_hovers_total:
  "\<forall>h \<in> set hovers. h < length hs \<Longrightarrow> \<exists>r. raster_hovers probe hovers hs nt = Inr r"
proof (induction hovers arbitrary: hs nt)
  case Nil
  then show ?case by simp
next
  case (Cons h0 rest)
  then have st: "nth_opt hs h0 = Some (hs ! h0)" by (simp add: nth_opt_def)
  let ?nt1 = "case texture (hs ! h0) of Some t \<Rightarrow> nt | None \<Rightarrow> Suc nt"
  have 1: "\<exists>r. raster_hovers probe rest hs ?nt1 = Inr r" using Cons by simp
  have 2: "\<exists>r. raster_hovers probe rest (hs[h0 := (hs ! h0)\<lparr>sbounds := Some (probe h0)\<rparr>]) ?nt1 = Inr r"
    using Cons by simp
  show ?case using 1 2 st by (auto simp: Let_def)
qed

lemma raster_states_total:
  "\<forall>(k, hs) \<in> set st. \<forall>h \<in> set hovers. h < length hs \<Longrightarrow>
     \<exists>r. raster_states probe hovers st nt = Inr r"
proof (induction st arbitrary: nt)
  case Nil
  then show ?case by simp
next
  case (Cons a st)
  obtain k0 hs0 where a: "a = (k0, hs0)" by (cases a)
  from Cons.prems a have "\<forall>h \<in> set hovers. h < length hs0" by auto
  from raster_hovers_total[OF this] obtain hs1 nt1 pend1 where
    h: "raster_hovers (probe k0) hovers hs0 nt = Inr (hs1, nt1, pend1)" by (auto, metis prod_cases3)
  from Cons.IH[of nt1] Cons.prems obtain r where "raster_states probe hovers st nt1 = Inr r" by auto
  then show ?case using h a by (cases r) auto
qed

lemma zero_bounds_opacity:
  "refresh (Suc n) force doc parent t g = Some (Inr (t', g')) \<and>
      zero_size (elBounds (elems g (element (fieldsOf t))))
      \<longrightarrow> contentTargetOpacity (fieldsOf t') = 0"
proof (intro impI)
  assume a: "refresh (Suc n) force doc parent t g = Some (Inr (t', g')) \<and>
      zero_size (elBounds (elems g (element (fieldsOf t))))"
  have r: "refresh (Suc n) force doc parent t g = Some (Inr (t', g'))"
    by (rule conjunct1[OF a])
  have z0: "zero_size (elBounds (elems g (element (fieldsOf t))))"
    by (rule conjunct2[OF a])
  obtain f cs where t: "t = Layer f cs" by (cases t)
  from r obtain t3 g3 cs' f6 where
    hd: "refresh_head force doc t g = Inr (t3, g3)"
    and tl: "refresh_tail parent (fieldsOf t3) = Inr f6"
    and t': "t' = Layer f6 cs'" by (rule refresh_Suc_Inr)
  from refresh_head_bounds[OF hd[unfolded t]]
  have b: "bounds_getter (fieldsOf t3) = Inr (Some (elBounds (elems g (element f))))" .
  have z: "bwidth (elBounds (elems g (element f))) = 0 \<or> bheight (elBounds (elems g (element f))) = 0"
    using z0 t by (simp add: zero_size_def)
  from refresh_tail_zero[OF b z tl] show "contentTargetOpacity (fieldsOf t') = 0" by (simp add: t')
qed

lemma zero_bounds_skipped:
  "rasterize_element probe l g = Inr (l', g1, pend) \<and> distinct (map fst (states l)) \<and>
        map_of (states l) k = Some hs \<and> zero_size (probe k h)
      \<longrightarrow> (\<exists>hs'. map_of (states l') k = Some hs' \<and> hs' ! h = hs ! h) \<and> (\<forall>x. (k, h, x) \<notin> set pend)"
proof (intro impI)
  assume a: "rasterize_element probe l g = Inr (l', g1, pend) \<and> distinct (map fst (states l)) \<and>
        map_of (states l) k = Some hs \<and> zero_size (probe k h)"
  then have re: "rasterize_element probe l g = Inr (l', g1, pend)"
    and d: "distinct (map fst (states l))" and m: "map_of (states l) k = Some hs"
    and z0: "zero_size (probe k h)" by simp_all
  obtain st nt where r: "raster_states probe (hover_range (hoverDepth l)) (states l) (nextTexture g) = Inr (st, nt, pend)"
    and l': "states l' = st"
  proof (cases "raster_states probe (hover_range (hoverDepth l)) (states l) (nextTexture g)")
    case (Inl e)
    then show ?thesis using re by (simp add: rasterize_element_def)
  next
    case (Inr q)
    obtain st nt p where q: "q = (st, nt, p)" by (cases q)
    have "p = pend" "states l' = st" using re Inr q by (auto simp add: rasterize_element_def)
    then show ?thesis using that[of st nt] Inr q by simp
  qed
  from z0 have z: "bwidth (probe k h) = 0 \<or> bheight (probe k h) = 0" by (simp add: zero_size_def)
  from raster_states_skip[OF r d m z]
  have "(\<exists>hs'. map_of st k = Some hs' \<and> length hs' = length hs \<and> hs' ! h = hs ! h)"
    and n: "\<forall>x. (k, h, x) \<notin> set pend" by simp_all
  then obtain hs' where "map_of st k = Some hs'" "hs' ! h = hs ! h" by blast
  then have "\<exists>hs'. map_of (states l') k = Some hs' \<and> hs' ! h = hs ! h" unfolding l' by blast
  then show "(\<exists>hs'. map_of (states l') k = Some hs' \<and> hs' ! h = hs ! h) \<and> (\<forall>x. (k, h, x) \<notin> set pend)"
    using n by blast
qed

lemma rasterize_element_total:
  "(\<forall>(k, hs) \<in> set (states l). \<forall>h \<in> set (hover_range (hoverDepth l)). h < length hs)
      \<longrightarrow> (\<exists>r. rasterize_element probe l g = Inr r)"
proof (intro impI)
  assume "\<forall>(k, hs) \<in> set (states l). \<forall>h \<in> set (hover_range (hoverDepth l)). h < length hs"
  from raster_states_total[OF this, of probe "nextTexture g"]
  obtain r where r: "raster_states probe (hover_range (hoverDepth l)) (states l) (nextTexture g) = Inr r"
    by blast
  obtain st nt p where "r = (st, nt, p)" by (cases r)
  with r show "\<exists>r. rasterize_element probe l g = Inr r"
    by (simp add: rasterize_element_def)
qed


section \<open>Properties of the state cache after \<^verbatim>\<open>_updateState\<close>\<close>





lemma declared_has_default: "[] \<in> set (declared_states el)"
  by (simp add: declared_states_def)




lemma update_not_root:
  "rootLayer (fieldsOf t) \<noteq> lid (fieldsOf t) \<Longrightarrow> update n a rays doc t g = Some (Inl RootOnlyError)"
  by (simp add: update_def checkRoot_def Let_def)

section \<open>Properties of mutation processing and of the update pass\<close>



lemma layers_of_traverseLayers:
  "layers_of (traverseLayers e t) = map e (layers_of t)"
proof (induction t)
  case (Layer f cs)
  have "map layers_of (map (traverseLayers e) cs) = map (map e) (map layers_of cs)"
    using Layer by simp
  then show ?case by (simp add: map_concat del: map_map)
qed




lemma cleanup_states_keys:
  "cleanup_states decl st d = Inr (st', d') \<Longrightarrow> fst ` set st' \<subseteq> set decl"
proof (induction decl st d arbitrary: st' d' rule: cleanup_states.induct)
  case (1 decl d)
  then show ?case by simp
next
  case (2 decl k hs rest d)
  show ?case
  proof (cases "k \<in> set decl")
    case True
    with "2.prems" obtain r where r: "cleanup_states decl rest d = Inr (r, d')" and s: "st' = (k, hs) # r"
      by (auto split: sum.splits prod.splits)
    from "2.IH"(1)[OF True r] s True show ?thesis by auto
  next
    case False
    with "2.prems" obtain d1 where d1: "dispose_slots hs d = Inr d1"
      and r: "cleanup_states decl rest d1 = Inr (st', d')"
      by (auto split: sum.splits)
    from "2.IH"(2)[OF False d1 r] show ?thesis by auto
  qed
qed

lemma create_states_keys:
  "fst ` set (create_states ks dep st) = fst ` set st \<union> set ks"
proof (induction ks dep st rule: create_states.induct)
  case (1 dep st)
  then show ?case by simp
next
  case (2 k ks dep st)
  show ?case
  proof (cases "map_of st k")
    case None
    then show ?thesis using 2 by auto
  next
    case (Some a)
    then have "k \<in> fst ` set st" by (metis map_of_eq_None_iff option.distinct(1))
    then show ?thesis using 2 Some by auto
  qed
qed

lemma updateState_keys:
  assumes "updateState l g = Inr (l1, g1)"
  shows "fst ` set (states l1) = set (declared_states (elems g (element l)))"
proof -
  let ?el = "elems g (element l)"
  from assms obtain st d' where
    c: "cleanup_states (declared_states ?el) (states l) (disposed g) = Inr (st, d')"
    and s1: "states l1 = create_states (declared_states ?el) (hoverDepthParsed ?el) st"
    by (auto simp: updateState_def Let_def split: sum.splits prod.splits)
  show ?thesis unfolding s1 create_states_keys using cleanup_states_keys[OF c] by auto
qed








section \<open>Properties of removal\<close>

lemma persists_iff:
  "persists t t' \<longleftrightarrow>
     (\<forall>l \<in> set (layers_of t). \<exists>l' \<in> set (layers_of t').
         lid l' = lid l \<and> (needsRemoval l \<longrightarrow> needsRemoval l'))"
  by (simp add: persists_def list_all_iff list_ex_iff)

lemma persists_refl: "persists t t"
  by (auto simp: persists_iff)

lemma persists_trans:
  assumes "persists a b" and "persists b c"
  shows "persists a c"
  unfolding persists_iff
proof
  fix l assume "l \<in> set (layers_of a)"
  with assms(1) obtain l1 where 1: "l1 \<in> set (layers_of b)" "lid l1 = lid l"
    "needsRemoval l \<longrightarrow> needsRemoval l1" unfolding persists_iff by blast
  with assms(2) obtain l2 where 2: "l2 \<in> set (layers_of c)" "lid l2 = lid l1"
    "needsRemoval l1 \<longrightarrow> needsRemoval l2" unfolding persists_iff by blast
  show "\<exists>l' \<in> set (layers_of c). lid l' = lid l \<and> (needsRemoval l \<longrightarrow> needsRemoval l')"
    using 1 2 by auto
qed

lemma persists_Layer:
  assumes "lid f' = lid f" and "needsRemoval f \<longrightarrow> needsRemoval f'"
    and "list_all2 persists cs cs1" and "set cs1 \<subseteq> set cs'"
  shows "persists (Layer f cs) (Layer f' cs')"
  unfolding persists_iff
proof
  fix l assume l: "l \<in> set (layers_of (Layer f cs))"
  show "\<exists>l' \<in> set (layers_of (Layer f' cs')). lid l' = lid l \<and> (needsRemoval l \<longrightarrow> needsRemoval l')"
  proof (cases "l = f")
    case True
    then show ?thesis using assms(1,2) by auto
  next
    case False
    with l obtain c where c: "c \<in> set cs" and lc: "l \<in> set (layers_of c)" by auto
    from c assms(3) obtain c1 where c1: "c1 \<in> set cs1" and p: "persists c c1"
      by (metis in_set_conv_nth list_all2_conv_all_nth)
    from p lc obtain l' where "l' \<in> set (layers_of c1)" "lid l' = lid l" "needsRemoval l \<longrightarrow> needsRemoval l'"
      unfolding persists_iff by blast
    moreover have "c1 \<in> set cs'" using c1 assms(4) by auto
    ultimately show ?thesis by auto
  qed
qed

lemma list_all2_same: "(\<And>x. x \<in> set xs \<Longrightarrow> R x (h x)) \<Longrightarrow> list_all2 R xs (map h xs)"
  by (induction xs) auto

lemma persists_markForRemoval: "persists t (markForRemoval t)"
proof (induction t)
  case (Layer f cs)
  have "list_all2 persists cs (map markForRemoval cs)"
    by (rule list_all2_same) (use Layer in auto)
  then show ?case by (auto intro!: persists_Layer)
qed

lemma markForRemoval_all: "list_all needsRemoval (layers_of (markForRemoval t))"
proof (induction t)
  case (Layer f cs)
  then show ?case by (auto simp: list_all_iff)
qed

lemma persists_mark_id: "persists t (mark_id i t)"
proof (induction t)
  case (Layer f cs)
  show ?case
  proof (cases "lid f = i")
    case True
    then show ?thesis using persists_markForRemoval[of "Layer f cs"] by simp
  next
    case False
    have "list_all2 persists cs (map (mark_id i) cs)"
      by (rule list_all2_same) (use Layer in auto)
    then show ?thesis using False by (auto intro!: persists_Layer)
  qed
qed

lemma persists_mark_absent: "persists t (mark_absent old t)"
proof (induction old arbitrary: t)
  case Nil
  then show ?case by (simp add: persists_refl)
next
  case (Cons c old)
  let ?t1 = "if c \<notin> set (childLayers (fieldsOf t)) then mark_id c t else t"
  have "persists t ?t1" by (simp add: persists_refl persists_mark_id)
  from persists_trans[OF this Cons[of ?t1]] show ?case by simp
qed

lemma persists_at_id:
  assumes "\<And>s. persists s (h s)"
  shows "persists t (at_id i h t)"
proof (induction t)
  case (Layer f cs)
  show ?case
  proof (cases "lid f = i")
    case True
    then show ?thesis using assms[of "Layer f cs"] by simp
  next
    case False
    have "list_all2 persists cs (map (at_id i h) cs)"
      by (rule list_all2_same) (use Layer in auto)
    then show ?thesis using False by (auto intro!: persists_Layer)
  qed
qed

lemma persists_fields:
  assumes "lid f' = lid f" and "needsRemoval f \<longrightarrow> needsRemoval f'"
  shows "persists (Layer f cs) (Layer f' cs)"
  by (rule persists_Layer[OF assms, of cs cs]) (simp_all add: list_all2_refl persists_refl)

lemma persists_traverseLayers:
  assumes "\<And>l. lid (e l) = lid l \<and> (needsRemoval l \<longrightarrow> needsRemoval (e l))"
  shows "persists t (traverseLayers e t)"
  unfolding persists_iff layers_of_traverseLayers using assms by auto

lemma each_layer_rel:
  assumes "each_layer h cs g = Some (Inr (cs', g'))"
    and "\<And>c g0 c' g1. c \<in> set cs \<Longrightarrow> h c g0 = Some (Inr (c', g1)) \<Longrightarrow> R c c'"
  shows "list_all2 R cs cs'"
  using assms
proof (induction cs arbitrary: g cs' g')
  case Nil
  then show ?case by simp
next
  case (Cons c cs)
  from Cons.prems(1) obtain c1 g1 cs1 where
    h: "h c g = Some (Inr (c1, g1))" and r: "each_layer h cs g1 = Some (Inr (cs1, g'))"
    and e: "cs' = c1 # cs1"
    by (auto split: option.splits sum.splits prod.splits)
  have 1: "R c c1" using Cons.prems(2)[OF _ h] by simp
  have 2: "list_all2 R cs cs1"
  proof (rule Cons.IH[OF r])
    fix c0 g0 c' g2
    assume "c0 \<in> set cs" "h c0 g0 = Some (Inr (c', g2))"
    then show "R c0 c'" using Cons.prems(2)[of c0 g0 c' g2] by simp
  qed
  show ?case using 1 2 e by simp
qed

lemma persists_tryConvert:
  "persists (fst s) (fst (snd (tryConvertToWebLayer3D el lvl s)))"
proof -
  obtain f cs g where s: "s = (Layer f cs, g)" by (cases s, cases "fst s") auto
  have a: "\<And>X. persists (Layer f cs) (Layer (f\<lparr>childLayers := X\<rparr>) cs)"
    by (rule persists_fields) simp_all
  have b: "\<And>X c. persists (Layer f cs) (Layer (f\<lparr>childLayers := X\<rparr>) (cs @ [c]))"
    by (rule persists_Layer[where ?cs1.0=cs]) (auto simp add: list_all2_refl persists_refl)
  show ?thesis unfolding s tryConvertToWebLayer3D_def
    by (auto simp: Let_def a b persists_refl split: option.splits prod.splits)
qed

lemma persists_updateChildLayers:
  assumes "updateChildLayers doc t g = (t', g')"
  shows "persists t t'"
proof -
  obtain f cs where t: "t = Layer f cs" by (cases t)
  let ?s0 = "(Layer (f\<lparr>childLayers := []\<rparr>) cs, g)"
  let ?s1 = "traverseDOM doc (element f) tryConvertToWebLayer3D (level f) ?s0"
  have 0: "persists t (fst ?s0)" unfolding t by (simp, rule persists_fields) simp_all
  have "\<And>lvl ts. persists t (fst (traverseKids tryConvertToWebLayer3D lvl ts ?s0))"
  proof (rule traverseKids_inv[where P="\<lambda>s. persists t (fst s)"])
    show "persists t (fst ?s0)" by (rule 0)
  next
    fix e l and s :: "layer \<times> glob" assume "persists t (fst s)"
    from persists_trans[OF this persists_tryConvert[of s e l]]
    show "persists t (fst (snd (tryConvertToWebLayer3D e l s)))" .
  qed
  then have 1: "persists t (fst ?s1)" using 0 unfolding traverseDOM_def by (auto split: option.splits)
  have "t' = mark_absent (childLayers f) (fst ?s1)"
    using assms unfolding t updateChildLayers_def by (auto simp: Let_def split: prod.splits)
  then show ?thesis using persists_trans[OF 1 persists_mark_absent] by simp
qed

lemma persists_refresh_head:
  assumes "refresh_head force doc (Layer f cs) g = Inr (t3, g3)"
  shows "persists (Layer f cs) t3"
proof -
  from assms[unfolded refresh_head_Inr] obtain f1 g1 f2 where
    us: "updateState f g = Inr (f1, g1)" and ub: "updateBounds f1 g1 = Inr f2"
    and br: "if needsRasterize f2 \<or> force
         then (\<exists>g'. updateChildLayers doc (Layer (f2\<lparr>needsRasterize := False\<rparr>) cs) g1 = (t3, g')
                   \<and> g3 = enqueue (lid f2) g')
         else t3 = Layer f2 cs \<and> g3 = g1" by blast
  from updateState_fields[OF us] obtain pr dep st ss0 where
    f1: "f1 = f\<lparr>pixelRatio := pr, hoverDepth := dep, state := st, states := ss0\<rparr>" by blast
  from updateBounds_fields[OF ub] obtain ss where f2: "f2 = f1\<lparr>states := ss\<rparr>" by blast
  have k: "lid f2 = lid f" "needsRemoval f2 = needsRemoval f" unfolding f2 f1 by simp_all
  show ?thesis
  proof (cases "needsRasterize f2 \<or> force")
    case True
    with br obtain g' where uc: "updateChildLayers doc (Layer (f2\<lparr>needsRasterize := False\<rparr>) cs) g1 = (t3, g')"
      by auto
    have "persists (Layer f cs) (Layer (f2\<lparr>needsRasterize := False\<rparr>) cs)"
      by (rule persists_fields) (simp_all add: k)
    from persists_trans[OF this persists_updateChildLayers[OF uc]] show ?thesis .
  next
    case False
    with br have "t3 = Layer f2 cs" by simp
    then show ?thesis using k by (auto intro!: persists_fields)
  qed
qed

lemma persists_refresh:
  "refresh n force doc parent t g = Some (Inr (t', g')) \<Longrightarrow> persists t t'"
proof (induction n arbitrary: parent t g t' g')
  case 0
  then show ?case by (simp add: refresh.simps)
next
  case (Suc n)
  obtain f cs where t: "t = Layer f cs" by (cases t)
  from Suc.prems obtain t3 g3 cs' f6 where
    hd: "refresh_head force doc t g = Inr (t3, g3)"
    and el: "each_layer (refresh n force doc (Some (fieldsOf t3))) (children t3) g3 = Some (Inr (cs', g'))"
    and tl: "refresh_tail parent (fieldsOf t3) = Inr f6"
    and t': "t' = Layer f6 cs'" by (rule refresh_Suc_Inr)
  have 1: "persists t t3" using persists_refresh_head[OF hd[unfolded t]] t by simp
  have 2: "list_all2 persists (children t3) cs'"
    by (rule each_layer_rel[OF el]) (use Suc.IH in blast)
  obtain f3 cs3 where t3: "t3 = Layer f3 cs3" by (cases t3)
  from refresh_tail_kept[OF tl] have k: "lid f6 = lid f3" "needsRemoval f6 = needsRemoval f3"
    unfolding t3 by (simp_all add: kept_def)
  have "persists t3 t'" unfolding t3 t'
    by (rule persists_Layer[where ?cs1.0=cs']) (use k 2 t3 in simp_all)
  from persists_trans[OF 1 this] show ?case .
qed

lemma persists_dirty_layer: "persists t (dirty_layer doc target i t)"
  unfolding dirty_layer_def
proof (rule persists_at_id)
  fix s :: layer
  obtain f cs where s: "s = Layer f cs" by (cases s)
  have 1: "persists s (Layer (f\<lparr>needsRasterize := True\<rparr>) cs)"
    unfolding s by (rule persists_fields) simp_all
  have 2: "persists (Layer (f\<lparr>needsRasterize := True\<rparr>) cs)
             (traverseLayers (setLayerNeedsRasterize doc target) (Layer (f\<lparr>needsRasterize := True\<rparr>) cs))"
    by (rule persists_traverseLayers) (simp add: setLayerNeedsRasterize_def)
  from persists_trans[OF 1 2]
  show "persists s (traverseLayers (setLayerNeedsRasterize doc target)
          (Layer ((fieldsOf s)\<lparr>needsRasterize := True\<rparr>) (children s)))"
    unfolding s by simp
qed

lemma persists_process_record: "persists t (process_record doc g r t)"
  unfolding process_record_def
  by (auto simp: persists_refl persists_dirty_layer split: option.splits mrecord.splits)

lemma persists_processMutations: "persists t (processMutations doc g records t)"
proof -
  have "persists t (fold (process_record doc g) records t)"
  proof (induction records arbitrary: t)
    case Nil
    then show ?case by (simp add: persists_refl)
  next
    case (Cons r records)
    from persists_trans[OF persists_process_record[of t doc g r] Cons[of "process_record doc g r t"]]
    show ?case by simp
  qed
  then show ?thesis by (simp add: processMutations_def persists_refl)
qed

lemma persists_set_states:
  "persists t (at_id i (\<lambda>s. Layer ((fieldsOf s)\<lparr>states := F s\<rparr>) (children s)) t)"
proof (rule persists_at_id)
  fix s :: layer
  obtain f cs where s: "s = Layer f cs" by (cases s)
  show "persists s (Layer ((fieldsOf s)\<lparr>states := F s\<rparr>) (children s))"
    unfolding s by (simp, rule persists_fields) simp_all
qed

lemma persists_rasterize:
  assumes "rasterize probe records doc i t g = Inr (t', g', pend)"
  shows "persists t t'"
proof (cases "lookup_layer i t")
  case None
  then show ?thesis using assms by (simp add: rasterize_def persists_refl)
next
  case (Some l0)
  show ?thesis
  proof (cases "nodeName (elems g (element l0)) = ''video''")
    case True
    then obtain l1 g1 where "rasterize_video l0 g = Inr (l1, g1)"
      and "t' = at_id i (\<lambda>s. Layer ((fieldsOf s)\<lparr>states := states l1\<rparr>) (children s)) t"
      using assms Some by (auto simp: rasterize_def split: sum.splits)
    then show ?thesis using persists_set_states[of t i "\<lambda>s. states l1"] by simp
  next
    case False
    let ?r1 = "processMutations doc g records t"
    have 1: "persists t ?r1" by (rule persists_processMutations)
    show ?thesis
    proof (cases "lookup_layer i ?r1")
      case None
      then have "t' = ?r1" using assms Some False by (auto simp add: rasterize_def Let_def)
      then show ?thesis using 1 by simp
    next
      case l: (Some l)
      then obtain l1 g1 where "rasterize_element probe l g = Inr (l1, g1, pend)"
        and "t' = at_id i (\<lambda>s. Layer ((fieldsOf s)\<lparr>states := states l1\<rparr>) (children s)) ?r1"
        using assms Some False by (auto simp: rasterize_def Let_def split: sum.splits)
      then show ?thesis
        using persists_trans[OF 1 persists_set_states[of ?r1 i "\<lambda>s. states l1"]] by simp
    qed
  qed
qed

lemma fold_commit_fields:
  "lid (fold commit_one pend l) = lid l \<and> needsRemoval (fold commit_one pend l) = needsRemoval l"
  by (induction pend arbitrary: l) (auto simp: commit_one_def split: prod.splits)

lemma persists_rasterize_commit: "persists t (rasterize_commit pend i t)"
  unfolding rasterize_commit_def
proof (rule persists_at_id)
  fix s :: layer
  obtain f cs where s: "s = Layer f cs" by (cases s)
  show "persists s (Layer (fold commit_one pend (fieldsOf s)) (children s))"
    unfolding s using fold_commit_fields[of pend f] by (simp, intro persists_fields) simp_all
qed

lemma persists_setHover: "persists t (setHover hl ph t)"
proof (induction t arbitrary: ph)
  case (Layer f cs)
  let ?h = "if lid f \<in> set hl then 1
               else (case ph of Some p \<Rightarrow> (if p > 0 then p + 1 else hover f) | None \<Rightarrow> hover f)"
  have "list_all2 persists cs (map (setHover hl (Some ?h)) cs)"
    by (rule list_all2_same) (use Layer in auto)
  then have "persists (Layer f cs) (Layer (f\<lparr>hover := ?h\<rparr>) (map (setHover hl (Some ?h)) cs))"
    by (intro persists_Layer[where ?cs1.0="map (setHover hl (Some ?h)) cs"]) simp_all
  then show ?case by (simp add: Let_def)
qed

lemma persists_updateInteractions:
  assumes "updateInteractions rays doc t g = (t2, g2)"
  shows "persists t t2"
proof -
  let ?r1 = "traverseLayers clearHover t"
  have 1: "persists t ?r1" by (rule persists_traverseLayers) (simp add: clearHover_def)
  have "t2 = setHover (concat (map (ray_hover ?r1) rays)) None ?r1"
    using assms by (simp add: updateInteractions_def Let_def)
  then show ?thesis using persists_trans[OF 1 persists_setHover] by simp
qed

lemma stems_from_iff:
  "stems_from t' t \<longleftrightarrow> (\<forall>l' \<in> set (layers_of t'). \<exists>l \<in> set (layers_of t). same_identity l l')"
  by (simp add: stems_from_def list_all_iff list_ex_iff)

lemma stems_from_refl: "stems_from t t"
  by (auto simp: stems_from_iff same_identity_def)

lemma stems_from_dispose: "stems_from (dispose t) t"
proof (induction t rule: dispose.induct)
  case (1 f cs)
  show ?case unfolding stems_from_iff
  proof
    fix l' assume l': "l' \<in> set (layers_of (dispose (Layer f cs)))"
    show "\<exists>l \<in> set (layers_of (Layer f cs)). same_identity l l'"
    proof (cases "l' = f\<lparr>mutationObserver := False, resizeObserver := False\<rparr>")
      case True
      then show ?thesis by (auto simp: same_identity_def)
    next
      case False
      with l' obtain c where c: "c \<in> set cs"
        and lc: "l' \<in> set (layers_of (if lid (fieldsOf c) \<in> set (childLayers f) then dispose c else c))"
        by auto
      have "stems_from (if lid (fieldsOf c) \<in> set (childLayers f) then dispose c else c) c"
        using 1[OF c] by (simp add: stems_from_refl)
      with lc obtain l where "l \<in> set (layers_of c)" "same_identity l l'"
        unfolding stems_from_iff by blast
      then show ?thesis using c by auto
    qed
  qed
qed

lemma transition_fields:
  "same_identity f (transitionVisibility alpha (transitionLayout alpha f))"
  by (simp add: same_identity_def transitionVisibility_def transitionLayout_def Let_def)

lemma traverse_transition_removed:
  "snd (traverse_transition alpha (Layer f cs))
     = (needsRemoval f \<and> isHidden (transitionVisibility alpha (transitionLayout alpha f)))"
  by (simp add: Let_def transitionVisibility_def transitionLayout_def)



lemma stems_from_trans:
  assumes "stems_from a b" and "stems_from b c"
  shows "stems_from a c"
  unfolding stems_from_iff
proof
  fix l' assume "l' \<in> set (layers_of a)"
  with assms(1) obtain l1 where 1: "l1 \<in> set (layers_of b)" "same_identity l1 l'"
    unfolding stems_from_iff by blast
  with assms(2) obtain l2 where 2: "l2 \<in> set (layers_of c)" "same_identity l2 l1"
    unfolding stems_from_iff by blast
  show "\<exists>l \<in> set (layers_of c). same_identity l l'"
    using 1 2 by (auto simp: same_identity_def)
qed

lemma size_child: "c \<in> set cs \<Longrightarrow> size c < size (Layer f cs)"
  by (induction cs) auto

lemma transition_children_stems:
  assumes "\<And>c. c \<in> set xs \<Longrightarrow> stems_from (fst (traverse_transition alpha c)) c"
  shows "\<forall>c' \<in> set (transition_children alpha xs). \<exists>c \<in> set xs. stems_from c' c"
  using assms
proof (induction "length xs" arbitrary: xs rule: less_induct)
  case less
  show ?case
  proof (cases xs)
    case Nil
    then show ?thesis by simp
  next
    case (Cons c rest)
    obtain c1 removed where tt: "traverse_transition alpha c = (c1, removed)"
      by (cases "traverse_transition alpha c")
    have pc: "stems_from c1 c" using less.prems[of c] Cons tt by simp
    show ?thesis
    proof (cases removed)
      case True
      show ?thesis
      proof (cases rest)
        case Nil
        then show ?thesis using Cons tt True by simp
      next
        case r: (Cons s r)
        have "\<forall>c' \<in> set (transition_children alpha r). \<exists>c \<in> set r. stems_from c' c"
          by (rule less.hyps) (use Cons r less.prems in auto)
        then show ?thesis using Cons r tt True by (auto intro: stems_from_refl)
      qed
    next
      case False
      have "\<forall>c' \<in> set (transition_children alpha rest). \<exists>c \<in> set rest. stems_from c' c"
        by (rule less.hyps) (use Cons less.prems in auto)
      then show ?thesis using Cons tt False pc by auto
    qed
  qed
qed

lemma traverse_transition_stems: "stems_from (fst (traverse_transition alpha t)) t"
proof (induction "size t" arbitrary: t rule: less_induct)
  case less
  obtain f cs where t: "t = Layer f cs" by (cases t)
  let ?f1 = "transitionVisibility alpha (transitionLayout alpha f)"
  let ?removed = "needsRemoval ?f1 \<and> isHidden ?f1"
  let ?D = "\<lambda>c. if lid (fieldsOf c) \<in> set (childLayers ?f1) then dispose c else c"
  let ?kids = "if ?removed then map ?D cs else cs"
  let ?top = "if ?removed then ?f1\<lparr>mutationObserver := False, resizeObserver := False\<rparr> else ?f1"
  have res: "fst (traverse_transition alpha t) = Layer ?top (transition_children alpha ?kids)"
    unfolding t by (simp add: Let_def)
  have kid_from: "\<And>k. k \<in> set ?kids \<Longrightarrow> \<exists>c \<in> set cs. stems_from k c \<and> size k = size c"
  proof -
    fix k assume k: "k \<in> set ?kids"
    show "\<exists>c \<in> set cs. stems_from k c \<and> size k = size c"
    proof (cases ?removed)
      case True
      with k obtain c where c: "c \<in> set cs" and kc: "k = ?D c" by auto
      have "stems_from (?D c) c \<and> size (?D c) = size c"
        by (simp add: stems_from_refl stems_from_dispose size_dispose)
      then show ?thesis using c kc by blast
    next
      case False
      with k have "k \<in> set cs" by simp
      then show ?thesis using stems_from_refl by blast
    qed
  qed
  have ih: "\<And>k. k \<in> set ?kids \<Longrightarrow> stems_from (fst (traverse_transition alpha k)) k"
  proof -
    fix k assume k: "k \<in> set ?kids"
    from kid_from[OF k] obtain c where "c \<in> set cs" "size k = size c" by blast
    then have "size k < size t" using size_child[of c cs f] t by simp
    from less[OF this] show "stems_from (fst (traverse_transition alpha k)) k" .
  qed
  from transition_children_stems[of ?kids alpha, OF ih]
  have kids: "\<forall>c' \<in> set (transition_children alpha ?kids). \<exists>k \<in> set ?kids. stems_from c' k" .
  have top: "same_identity f ?top"
    using transition_fields[of f alpha] by (auto simp: same_identity_def)
  have "stems_from (Layer ?top (transition_children alpha ?kids)) (Layer f cs)"
    unfolding stems_from_iff
  proof
    fix l' assume l': "l' \<in> set (layers_of (Layer ?top (transition_children alpha ?kids)))"
    show "\<exists>l \<in> set (layers_of (Layer f cs)). same_identity l l'"
    proof (cases "l' = ?top")
      case True
      then show ?thesis using top by auto
    next
      case False
      with l' obtain c' where c': "c' \<in> set (transition_children alpha ?kids)"
        and lc: "l' \<in> set (layers_of c')" by auto
      from kids c' obtain k where k: "k \<in> set ?kids" and sk: "stems_from c' k" by blast
      from kid_from[OF k] obtain c where c: "c \<in> set cs" and kc: "stems_from k c" by blast
      from stems_from_trans[OF sk kc] lc obtain l where "l \<in> set (layers_of c)" "same_identity l l'"
        unfolding stems_from_iff by blast
      then show ?thesis using c by auto
    qed
  qed
  then show ?case using res t by simp
qed







lemma persists_flagged: "persists t t' \<Longrightarrow> flagged i t \<Longrightarrow> flagged i t'"
  unfolding persists_iff flagged_def list_ex_iff by force


section \<open>Properties of switching between declared states\<close>

lemma split_go_nows:
  "\<forall>c \<in> set cur. \<not> is_ws c \<Longrightarrow> \<forall>tok \<in> set (split_go xs cur inws). \<forall>c \<in> set tok. \<not> is_ws c"
proof (induction xs arbitrary: cur inws)
  case Nil
  then show ?case by simp
next
  case (Cons a xs)
  show ?case
  proof (cases "is_ws a")
    case True
    have 1: "\<forall>tok \<in> set (split_go xs cur True). \<forall>c \<in> set tok. \<not> is_ws c"
      by (rule Cons.IH[OF Cons.prems])
    have 2: "\<forall>tok \<in> set (split_go xs [] True). \<forall>c \<in> set tok. \<not> is_ws c"
      by (rule Cons.IH) simp
    show ?thesis using True 1 2 Cons.prems by (cases inws) auto
  next
    case False
    have "\<forall>tok \<in> set (split_go xs (a # cur) False). \<forall>c \<in> set tok. \<not> is_ws c"
      by (rule Cons.IH) (use False Cons.prems in auto)
    then show ?thesis using False by simp
  qed
qed

lemma split_go_token:
  "\<forall>c \<in> set xs. \<not> is_ws c \<Longrightarrow> split_go xs cur inws = [rev cur @ xs]"
  by (induction xs arbitrary: cur inws) auto

lemma split_ws_token: "\<forall>c \<in> set s. \<not> is_ws c \<Longrightarrow> split_ws s = [s]"
  by (simp add: split_ws_def split_go_token)

lemma split_ws_nows: "tok \<in> set (split_ws s) \<Longrightarrow> \<forall>c \<in> set tok. \<not> is_ws c"
  using split_go_nows[of "[]" s False] by (auto simp: split_ws_def)

lemma declared_token:
  assumes "s \<in> set (declared_states el)" and "s \<noteq> []"
  shows "split_ws s = [s]"
proof -
  from assms have "s \<in> set (split_ws (case statesAttr el of None \<Rightarrow> [] | Some v \<Rightarrow> v))"
    by (auto simp: declared_states_def)
  from split_ws_nows[OF this] show ?thesis by (rule split_ws_token)
qed

lemma classList_single:
  assumes "split_ws s = [s]" and "s \<noteq> []"
  shows "classList (el\<lparr>classAttr := Some s\<rparr>) = [s]"
  using assms by (simp add: classList_def className_def)

lemma classList_empty: "classList (el\<lparr>classAttr := Some []\<rparr>) = []"
  by (simp add: classList_def className_def split_ws_def)

lemma declared_states_class: "declared_states (el\<lparr>classAttr := v\<rparr>) = declared_states el"
  by (simp add: declared_states_def)

lemma cleanup_states_id:
  "fst ` set st \<subseteq> set decl \<Longrightarrow> cleanup_states decl st d = Inr (st, d)"
  by (induction decl st d rule: cleanup_states.induct) auto

lemma create_states_id:
  "\<forall>k \<in> set ks. map_of st k \<noteq> None \<Longrightarrow> create_states ks dep st = st"
  by (induction ks dep st rule: create_states.induct) auto

lemma updateState_synced:
  assumes "fst ` set (states l) = set (declared_states (elems g (element l)))"
  shows "updateState l g =
           Inr (l\<lparr>pixelRatio := compute_pixelRatio (options_pixelRatio l) (devicePixelRatio g)
                                   (pixelRatioParsed (elems g (element l))),
                  hoverDepth := hoverDepthParsed (elems g (element l)),
                  state := current_state (classList (elems g (element l)))
                             (declared_states (elems g (element l)))\<rparr>, g)"
proof -
  let ?decl = "declared_states (elems g (element l))"
  have c: "cleanup_states ?decl (states l) (disposed g) = Inr (states l, disposed g)"
    by (rule cleanup_states_id) (use assms in simp)
  have "\<forall>k \<in> set ?decl. map_of (states l) k \<noteq> None"
    using assms by (simp add: map_of_eq_None_iff)
  then have cr: "\<And>dep. create_states ?decl dep (states l) = states l" by (rule create_states_id)
  show ?thesis unfolding updateState_def Let_def by (simp add: c cr)
qed

lemma map_texture_update:
  "map texture (hs[i := (hs ! i)\<lparr>sbounds := Some b\<rparr>]) = map texture hs"
proof (cases "i < length hs")
  case True
  then have "(map texture hs)[i := texture (hs ! i)] = map texture hs"
    by (metis list_update_id nth_map)
  then show ?thesis by (simp add: map_update)
next
  case False
  then have "length hs \<le> i" by simp
  then show ?thesis by (simp add: list_update_beyond)
qed

lemma texture_cache_write: "texture_cache (write_slot_bounds l b) = texture_cache l"
  unfolding texture_cache_def write_slot_bounds_def
  by (auto simp: o_def map_texture_update split: prod.splits)

lemma keys_write: "map fst (states (write_slot_bounds l b)) = map fst (states l)"
  unfolding write_slot_bounds_def by (auto simp: o_def split: prod.splits)

lemma map_of_map_texture:
  "map_of (map (\<lambda>(k, hs). (k, map texture hs)) st) k = map_option (map texture) (map_of st k)"
  by (induction st) auto

lemma map_of_texture_cache:
  "map_of (texture_cache l) k = map_option (map texture) (map_of (states l) k)"
  unfolding texture_cache_def by (rule map_of_map_texture)

lemma texture_getter_cache:
  "texture_getter l =
     (case (case map_of (texture_cache l) (state l) of
              Some ts \<Rightarrow> Some ts | None \<Rightarrow> map_of (texture_cache l) []) of
        None \<Rightarrow> Inl TypeError
      | Some ts \<Rightarrow>
          (case nth_opt ts (hover l) of
             Some t \<Rightarrow> Inr t
           | None \<Rightarrow> (case nth_opt ts 0 of Some t \<Rightarrow> Inr t | None \<Rightarrow> Inl TypeError)))"
  unfolding texture_getter_def current_slot_def current_hoverStates_def map_of_texture_cache
    nth_opt_def
  by (auto split: option.splits)

lemma texture_getter_by_cache:
  assumes "texture_cache a = texture_cache b" and "state a = state b" and "hover a = hover b"
  shows "texture_getter a = texture_getter b"
  unfolding texture_getter_cache assms ..

lemma refresh_head_clean_elems:
  assumes "refresh_head False doc (Layer f cs) g = Inr (t3, g3)" and "\<not> needsRasterize f"
  shows "elems g3 = elems g"
proof -
  from assms(1)[unfolded refresh_head_Inr] obtain f1 g1 f2 where
    us: "updateState f g = Inr (f1, g1)" and ub: "updateBounds f1 g1 = Inr f2"
    and br: "if needsRasterize f2 \<or> False
         then (\<exists>g'. updateChildLayers doc (Layer (f2\<lparr>needsRasterize := False\<rparr>) cs) g1 = (t3, g')
                   \<and> g3 = enqueue (lid f2) g')
         else t3 = Layer f2 cs \<and> g3 = g1" by blast
  from updateState_fields[OF us] obtain pr dep st ss0 d where
    f1: "f1 = f\<lparr>pixelRatio := pr, hoverDepth := dep, state := st, states := ss0\<rparr>"
    and g1: "g1 = g\<lparr>disposed := d\<rparr>" by blast
  from updateBounds_fields[OF ub] obtain ss where f2: "f2 = f1\<lparr>states := ss\<rparr>" by blast
  have "\<not> needsRasterize f2" using assms(2) unfolding f2 f1 by simp
  with br have "g3 = g1" by simp
  then show ?thesis using g1 by simp
qed

lemma refresh_clean_elems:
  "refresh n False doc parent t g = Some (Inr (t', g')) \<Longrightarrow>
   \<forall>l \<in> set (layers_of t). \<not> needsRasterize l \<Longrightarrow> elems g' = elems g"
proof (induction n arbitrary: parent t g t' g')
  case 0
  then show ?case by (simp add: refresh.simps)
next
  case (Suc n)
  obtain f cs where t: "t = Layer f cs" by (cases t)
  from Suc.prems(1) obtain t3 g3 cs' f6 where
    hd: "refresh_head False doc t g = Inr (t3, g3)"
    and el: "each_layer (refresh n False doc (Some (fieldsOf t3))) (children t3) g3 = Some (Inr (cs', g'))"
    and tl: "refresh_tail parent (fieldsOf t3) = Inr f6"
    and t': "t' = Layer f6 cs'" by (rule refresh_Suc_Inr)
  have nf: "\<not> needsRasterize f" using Suc.prems(2) t by simp
  from refresh_head_clean[OF hd[unfolded t] nf] have c3: "children t3 = cs" by simp
  have e3: "elems g3 = elems g" by (rule refresh_head_clean_elems[OF hd[unfolded t] nf])
  have "(\<forall>c' \<in> set cs'. True) \<and> elems g' = elems g"
  proof (rule each_layer_inv[OF el, where I="\<lambda>x. elems x = elems g"])
    show "elems g3 = elems g" by (rule e3)
  next
    fix c g0 c' g1
    assume c: "c \<in> set (children t3)" and i: "elems g0 = elems g"
      and r: "refresh n False doc (Some (fieldsOf t3)) c g0 = Some (Inr (c', g1))"
    have "\<forall>l \<in> set (layers_of c). \<not> needsRasterize l" using Suc.prems(2) c c3 t by auto
    from Suc.IH[OF r this] i show "True \<and> elems g1 = elems g" by simp
  qed
  then show ?case by simp
qed

lemma refresh_synced_top:
  assumes "refresh (Suc n) False doc parent (Layer f cs) g = Some (Inr (t', g'))"
    and "\<not> needsRasterize f"
    and "fst ` set (states f) = set (declared_states (elems g (element f)))"
  shows "texture_cache (fieldsOf t') = texture_cache f
         \<and> map fst (states (fieldsOf t')) = map fst (states f)
         \<and> state (fieldsOf t') = current_state (classList (elems g (element f)))
                                     (declared_states (elems g (element f)))
         \<and> hover (fieldsOf t') = hover f \<and> lid (fieldsOf t') = lid f
         \<and> element (fieldsOf t') = element f"
proof -
  from assms(1) obtain t3 g3 cs' f6 where
    hd: "refresh_head False doc (Layer f cs) g = Inr (t3, g3)"
    and tl: "refresh_tail parent (fieldsOf t3) = Inr f6"
    and t': "t' = Layer f6 cs'" by (rule refresh_Suc_Inr)
  let ?f1 = "f\<lparr>pixelRatio := compute_pixelRatio (options_pixelRatio f) (devicePixelRatio g)
                                   (pixelRatioParsed (elems g (element f))),
                  hoverDepth := hoverDepthParsed (elems g (element f)),
                  state := current_state (classList (elems g (element f)))
                             (declared_states (elems g (element f)))\<rparr>"
  from hd[unfolded refresh_head_Inr updateState_synced[OF assms(3)]] obtain f2 where
    ub: "updateBounds ?f1 g = Inr f2"
    and br: "if needsRasterize f2 \<or> False
         then (\<exists>g'. updateChildLayers doc (Layer (f2\<lparr>needsRasterize := False\<rparr>) cs) g = (t3, g')
                   \<and> g3 = enqueue (lid f2) g')
         else t3 = Layer f2 cs \<and> g3 = g" by auto
  have f2: "f2 = write_slot_bounds ?f1 (elBounds (elems g (element ?f1)))"
    using ub by (auto simp: updateBounds_def split: sum.splits)
  have nr: "\<not> needsRasterize f2" using assms(2) unfolding f2 by (simp add: write_slot_bounds_def)
  with br have t3: "fieldsOf t3 = f2" by simp
  have a: "texture_cache f2 = texture_cache f"
    unfolding f2 texture_cache_write by (simp add: texture_cache_def)
  have b: "map fst (states f2) = map fst (states f)" unfolding f2 keys_write by simp
  have c: "state f2 = current_state (classList (elems g (element f))) (declared_states (elems g (element f)))"
    "hover f2 = hover f" "lid f2 = lid f" "element f2 = element f"
    unfolding f2 by (simp_all add: write_slot_bounds_def)
  from refresh_tail_kept[OF tl] have k: "kept f2 f6" unfolding t3 .
  have "texture_cache f6 = texture_cache f2" using k by (simp add: kept_def texture_cache_def)
  then show ?thesis using a b c k unfolding t' by (simp add: kept_def)
qed

lemma ancestors_of_head: "ancestors_of a doc = Some p \<Longrightarrow> \<exists>q. p = a # q"
proof (induction a doc arbitrary: p rule: ancestors_of.induct)
  case (1 a)
  then show ?case by simp
next
  case (2 a e cs rest)
  show ?case
  proof (cases "e = a")
    case True
    then show ?thesis using "2.prems" by auto
  next
    case False
    show ?thesis
    proof (cases "ancestors_of a cs")
      case None
      then show ?thesis using "2.IH"(2)[OF False None] "2.prems" False by auto
    next
      case (Some p0)
      from "2.IH"(1)[OF False Some] obtain q where "p0 = a # q" by blast
      then show ?thesis using "2.prems" False Some by auto
    qed
  qed
qed

lemma closest_self:
  assumes "layerAttr (els e) \<noteq> None"
  shows "closest_layer_element doc els e = Some e"
proof (cases "ancestors_of e doc")
  case None
  then show ?thesis using assms by (simp add: closest_layer_element_def)
next
  case (Some p)
  from ancestors_of_head[OF Some] obtain q where "p = e # q" by blast
  then show ?thesis using assms Some by (simp add: closest_layer_element_def)
qed

lemma class_switch_clean:
  assumes "[] \<in> fst ` set (states f)" and "s \<in> fst ` set (states f)" and "split_ws s = [s]"
    and "a = s \<or> a = []" and "v = s \<or> v = []"
  shows "\<not> class_needsRasterize f (Some a) v"
proof -
  have k: "map_of (states f) [] \<noteq> None" "map_of (states f) s \<noteq> None"
    using assms(1,2) by (simp_all add: map_of_eq_None_iff)
  have e: "split_ws [] = [[]]" by (simp add: split_ws_def)
  have o: "set (old_classes (Some a)) \<subseteq> {s, []}"
    using assms(3,4) by (auto simp: old_classes_def)
  have c: "set (split_ws v) \<subseteq> {s, []}" using assms(3,5) e by auto
  show ?thesis
    unfolding class_needsRasterize_def Let_def arraySubtract_def
    using o c k by auto
qed

lemma current_state_class:
  assumes "s \<in> set decl" and "split_ws s = [s]" and "s \<noteq> []" and "v = s \<or> v = []"
  shows "current_state (classList (el\<lparr>classAttr := Some v\<rparr>)) decl = v"
proof (cases "v = []")
  case True
  then show ?thesis by (simp add: classList_empty current_state_def)
next
  case False
  then have "v = s" using assms(4) by simp
  then show ?thesis using assms(1-3) by (simp add: classList_single current_state_def)
qed

lemma each_layer_inv_rel:
  assumes "each_layer h cs g = Some (Inr (cs', g'))"
    and "I g"
    and "\<And>c g0 c' g1. c \<in> set cs \<Longrightarrow> I g0 \<Longrightarrow> h c g0 = Some (Inr (c', g1)) \<Longrightarrow> R c c' \<and> I g1"
  shows "list_all2 R cs cs' \<and> I g'"
  using assms
proof (induction cs arbitrary: g cs')
  case Nil
  then show ?case by simp
next
  case (Cons c cs)
  from Cons.prems(1) obtain c1 g1 cs1 where
    h: "h c g = Some (Inr (c1, g1))"
    and r: "each_layer h cs g1 = Some (Inr (cs1, g'))"
    and cs': "cs' = c1 # cs1"
    by (auto split: option.splits sum.splits prod.splits)
  from Cons.prems(3)[OF _ Cons.prems(2) h] have 1: "R c c1" "I g1" by simp_all
  have "list_all2 R cs cs1 \<and> I g'"
    by (rule Cons.IH[OF r 1(2)]) (use Cons.prems(3) in auto)
  then show ?case using 1 cs' by simp
qed

lemma list_all2_concat:
  "list_all2 (\<lambda>a b. list_all2 R (h a) (k b)) xs ys \<Longrightarrow>
   list_all2 R (concat (map h xs)) (concat (map k ys))"
  by (induction xs ys rule: list_all2_induct) (auto intro: list_all2_appendI)

lemma refresh_head_ids:
  assumes "refresh_head force doc (Layer f cs) g = Inr (t3, g3)"
  shows "lid (fieldsOf t3) = lid f \<and> element (fieldsOf t3) = element f"
proof -
  from refresh_head_fields[OF assms] obtain pr dep st ss X Y where
    "fieldsOf t3 = f\<lparr>pixelRatio := pr, hoverDepth := dep, state := st, states := ss,
             needsRasterize := False, childLayers := X, needsRemoval := Y\<rparr>" by blast
  then show ?thesis by simp
qed

lemma refresh_resumed_top:
  assumes "refresh (Suc n) False doc parent (Layer f cs) g = Some (Inr (t', g'))"
    and "\<not> needsRasterize f"
  shows "resumed (elems g) f (fieldsOf t')"
proof -
  from assms(1) obtain t3 g3 cs' f6 where
    hd: "refresh_head False doc (Layer f cs) g = Inr (t3, g3)"
    and tl: "refresh_tail parent (fieldsOf t3) = Inr f6"
    and t': "t' = Layer f6 cs'" by (rule refresh_Suc_Inr)
  from refresh_tail_kept[OF tl] have k: "kept (fieldsOf t3) f6" .
  have i: "lid (fieldsOf t') = lid f" "element (fieldsOf t') = element f"
    using refresh_head_ids[OF hd] k unfolding t' by (simp_all add: kept_def)
  show ?thesis unfolding resumed_def
    using i refresh_synced_top[OF assms(1,2)] by simp
qed

lemma refresh_clean_resumed:
  "refresh n False doc parent t g = Some (Inr (t', g')) \<Longrightarrow>
   \<forall>l \<in> set (layers_of t). \<not> needsRasterize l \<Longrightarrow>
   list_all2 (resumed (elems g)) (layers_of t) (layers_of t')"
proof (induction n arbitrary: parent t g t' g')
  case 0
  then show ?case by (simp add: refresh.simps)
next
  case (Suc n)
  obtain f cs where t: "t = Layer f cs" by (cases t)
  from Suc.prems(1) obtain t3 g3 cs' f6 where
    hd: "refresh_head False doc t g = Inr (t3, g3)"
    and el: "each_layer (refresh n False doc (Some (fieldsOf t3))) (children t3) g3 = Some (Inr (cs', g'))"
    and tl: "refresh_tail parent (fieldsOf t3) = Inr f6"
    and t': "t' = Layer f6 cs'" by (rule refresh_Suc_Inr)
  have nf: "\<not> needsRasterize f" using Suc.prems(2) t by simp
  from refresh_head_clean[OF hd[unfolded t] nf] have c3: "children t3 = cs" by simp
  have e3: "elems g3 = elems g" by (rule refresh_head_clean_elems[OF hd[unfolded t] nf])
  have top: "resumed (elems g) f f6"
    using refresh_resumed_top[OF Suc.prems(1)[unfolded t] nf] unfolding t' by simp
  have "list_all2 (\<lambda>c c'. list_all2 (resumed (elems g)) (layers_of c) (layers_of c')) (children t3) cs'
        \<and> elems g' = elems g"
  proof (rule each_layer_inv_rel[OF el, where I="\<lambda>x. elems x = elems g"])
    show "elems g3 = elems g" by (rule e3)
  next
    fix c g0 c' g1
    assume c: "c \<in> set (children t3)" and i: "elems g0 = elems g"
      and r: "refresh n False doc (Some (fieldsOf t3)) c g0 = Some (Inr (c', g1))"
    have cl: "\<forall>l \<in> set (layers_of c). \<not> needsRasterize l" using Suc.prems(2) c c3 t by auto
    from Suc.IH[OF r cl] refresh_clean_elems[OF r cl] i
    show "list_all2 (resumed (elems g)) (layers_of c) (layers_of c') \<and> elems g1 = elems g"
      by simp
  qed
  then have "list_all2 (resumed (elems g)) (concat (map layers_of cs)) (concat (map layers_of cs'))"
    unfolding c3 by (intro list_all2_concat) simp
  then show ?case using top unfolding t t' by simp
qed

lemma find_resumed:
  "list_all2 (resumed els) xs ys \<Longrightarrow> find (\<lambda>f. lid f = i) xs = Some f \<Longrightarrow>
   \<exists>f'. find (\<lambda>f. lid f = i) ys = Some f' \<and> resumed els f f'"
proof (induction xs ys rule: list_all2_induct)
  case Nil
  then show ?case by simp
next
  case (Cons x xs y ys)
  from Cons.hyps(1) have l: "lid y = lid x" by (simp add: resumed_def)
  show ?case
  proof (cases "lid x = i")
    case True
    then show ?thesis using Cons.prems Cons.hyps(1) l by simp
  next
    case False
    then show ?thesis using Cons.prems Cons.IH l by simp
  qed
qed

lemma lookup_layer_resumed:
  assumes "refresh n False doc parent t g = Some (Inr (t', g'))"
    and "\<forall>l \<in> set (layers_of t). \<not> needsRasterize l"
    and "lookup_layer i t = Some f"
  shows "\<exists>f'. lookup_layer i t' = Some f' \<and> resumed (elems g) f f'"
  using find_resumed[OF refresh_clean_resumed[OF assms(1,2)]] assms(3)
  unfolding lookup_layer_def by blast

lemma switch_mutation_clean:
  assumes "lookup_layer (lid f) t = Some f"
    and "layerAttr (elems g (element f)) = Some (Some (lid f))"
    and "[] \<in> fst ` set (states f)" and "s \<in> fst ` set (states f)" and "split_ws s = [s]"
    and "a = s \<or> a = []" and "v = s \<or> v = []"
  shows "processMutations doc (set_class (element f) (Some v) g) [ClassRec (element f) (Some a)] t = t"
proof -
  let ?g1 = "set_class (element f) (Some v) g"
  have la: "layerAttr (elems ?g1 (element f)) = Some (Some (lid f))"
    using assms(2) by (simp add: set_class_def)
  have cl: "closest_layer_element doc (elems ?g1) (element f) = Some (element f)"
    by (rule closest_self) (simp add: la)
  have "f \<in> set (layers_of t)"
    using assms(1) unfolding lookup_layer_def by (auto simp: find_Some_iff)
  then have i: "lid f \<in> set (layer_ids t)" by (simp add: layer_ids_def)
  have gl: "getLayerForElement doc ?g1 t (element f) = Some (lid f)"
    unfolding getLayerForElement_def cl by (simp add: la getObjectById_def i)
  have cn: "\<not> class_needsRasterize f (Some a) (className (elems ?g1 (element f)))"
    using class_switch_clean[OF assms(3-7)] by (simp add: set_class_def className_def)
  have "process_record doc ?g1 (ClassRec (element f) (Some a)) t = t"
    unfolding process_record_def
    by (simp add: record_target_def gl assms(1) cn)
  then show ?thesis by (simp add: processMutations_def)
qed

lemma switch_step:
  assumes cl: "\<forall>l \<in> set (layers_of t). \<not> needsRasterize l"
    and lk: "lookup_layer (lid f) t = Some f"
    and sy: "fst ` set (states f) = set (declared_states (elems g (element f)))"
    and la: "layerAttr (elems g (element f)) = Some (Some (lid f))"
    and sd: "s \<in> set (declared_states (elems g (element f)))" and sn: "s \<noteq> []"
    and old: "classAttr (elems g (element f)) = Some a" and a: "a = s \<or> a = []"
    and v: "v = s \<or> v = []"
    and sw: "switch_class doc n (element f) (Some v) (t, g) = Some (Inr (t', g'))"
  shows "\<exists>f'. lookup_layer (lid f) t' = Some f' \<and> state f' = v
           \<and> texture_cache f' = texture_cache f \<and> hover f' = hover f \<and> lid f' = lid f
           \<and> element f' = element f \<and> map fst (states f') = map fst (states f)
           \<and> queue g' = queue g \<and> elems g' = elems (set_class (element f) (Some v) g)
           \<and> (\<forall>l \<in> set (layers_of t'). \<not> needsRasterize l)"
proof -
  let ?e = "element f"
  let ?g1 = "set_class ?e (Some v) g"
  have tok: "split_ws s = [s]" by (rule declared_token[OF sd sn])
  have k0: "[] \<in> fst ` set (states f)" unfolding sy by (rule declared_has_default)
  have ks: "s \<in> fst ` set (states f)" unfolding sy by (rule sd)
  have pm: "processMutations doc ?g1 [ClassRec ?e (Some a)] t = t"
    by (rule switch_mutation_clean[OF lk la k0 ks tok a v])
  have r: "refresh n False doc None t ?g1 = Some (Inr (t', g'))"
    using sw unfolding switch_class_def by (simp add: Let_def old pm)
  have d1: "declared_states (elems ?g1 ?e) = declared_states (elems g ?e)"
    by (simp add: set_class_def declared_states_class)
  have sy1: "fst ` set (states f) = set (declared_states (elems ?g1 ?e))" unfolding d1 by (rule sy)
  from lookup_layer_resumed[OF r cl lk] obtain f' where
    lk': "lookup_layer (lid f) t' = Some f'" and re: "resumed (elems ?g1) f f'" by blast
  from re sy1 have
    top: "texture_cache f' = texture_cache f"
      "map fst (states f') = map fst (states f)"
      "state f' = current_state (classList (elems ?g1 ?e)) (declared_states (elems ?g1 ?e))"
      "hover f' = hover f" "lid f' = lid f" "element f' = element f"
    unfolding resumed_def by simp_all
  have "elems ?g1 ?e = (elems g ?e)\<lparr>classAttr := Some v\<rparr>" by (simp add: set_class_def)
  then have st: "state f' = v"
    using top(3) current_state_class[OF sd tok sn v, of "elems g ?e"] d1
    by (simp add: declared_states_class)
  have q: "queue g' = queue ?g1" by (rule refresh_clean_queue[OF r cl])
  have e: "elems g' = elems ?g1" by (rule refresh_clean_elems[OF r cl])
  have c: "\<forall>l \<in> set (layers_of t'). \<not> needsRasterize l" by (rule refresh_clears[OF r])
  have qq: "queue g' = queue g" using q by (simp add: set_class_def)
  show ?thesis using lk' st top(1,2,4,5,6) qq e c by blast
qed

lemma map_all_False: "\<forall>x \<in> set xs. \<not> p x \<Longrightarrow> map p xs = replicate (length xs) False"
  by (induction xs) auto

section \<open>Claims\<close>





text \<open>
  C2. When \<^verbatim>\<open>refresh(false)\<close> has returned and is called again on the tree and the
  shared state it left, with nothing changed in between, the second call leaves the
  root's rasterization queue as the first call left it: it adds no entry.
\<close>

theorem refresh_twice_queue:
  assumes "refresh n False doc parent t g = Some (Inr (t1, g1))"
    and "refresh m False doc parent t1 g1 = Some (Inr (t2, g2))"
  shows "queue g2 = queue g1"
  using refresh_clean_queue[OF assms(2)] refresh_clears[OF assms(1)] by blast

theorem refresh_twice_queue_witness:
  "map_option (queue \<circ> snd) ex_first = Some [1, 7] \<and>
   map_option (queue \<circ> snd) (refresh_again 3 ex_doc ex_first) = Some [1, 7]"
proof -
  have a: "map_option (queue \<circ> snd) ex_first = Some [1, 7]" by code_simp
  have b: "refresh_again 3 ex_doc ex_first \<noteq> None" by code_simp
  from a obtain t1 g1 where f: "ex_first = Some (t1, g1)" and q1: "queue g1 = [1, 7]" by auto
  from b have "refresh_again 3 ex_doc (Some (t1, g1)) \<noteq> None" unfolding f .
  then obtain t2 g2 where s: "result_of (refresh 3 False ex_doc None t1 g1) = Some (t2, g2)"
    by (auto simp: refresh_again_def)
  have r1: "refresh 3 False ex_doc None ex_root ex_glob = Some (Inr (t1, g1))"
    using f unfolding ex_first_def by (rule result_ofD)
  have r2: "refresh 3 False ex_doc None t1 g1 = Some (Inr (t2, g2))" using s by (rule result_ofD)
  have "queue g2 = queue g1" using refresh_twice_queue[OF r1 r2] .
  then show ?thesis using a s q1 unfolding f by (simp add: refresh_again_def)
qed

text \<open>
  C4. A layer whose element has zero width or zero height has
  \<open>contentTargetOpacity = 0\<close> when \<^verbatim>\<open>refresh\<close> returns, whatever its state. In
  \<^verbatim>\<open>_rasterize\<close> a state and hover configuration measured with zero size is passed
  over: its slot keeps the texture and bounds it had and no render function is queued
  for it. Zero size raises nothing: when every slot the loop visits exists, the
  synchronous part of \<^verbatim>\<open>_rasterize\<close> returns.
\<close>

theorem zero_bounds_invisible:
  "(refresh (Suc n) force doc parent t g = Some (Inr (t', g')) \<and>
      zero_size (elBounds (elems g (element (fieldsOf t))))
      \<longrightarrow> contentTargetOpacity (fieldsOf t') = 0)
   \<and> (rasterize_element probe l g = Inr (l', g1, pend) \<and> distinct (map fst (states l)) \<and>
        map_of (states l) k = Some hs \<and> zero_size (probe k h)
      \<longrightarrow> (\<exists>hs'. map_of (states l') k = Some hs' \<and> hs' ! h = hs ! h) \<and> (\<forall>x. (k, h, x) \<notin> set pend))
   \<and> ((\<forall>(k, hs) \<in> set (states l). \<forall>h \<in> set (hover_range (hoverDepth l)). h < length hs)
      \<longrightarrow> (\<exists>r. rasterize_element probe l g = Inr r))"
  by (intro conjI zero_bounds_opacity zero_bounds_skipped rasterize_element_total)

theorem zero_bounds_invisible_witness:
  "map_option (\<lambda>(t, g). contentTargetOpacity (fieldsOf t))
      (result_of (refresh 3 False ex_doc None (fst zex_start) (snd zex_start))) = Some 0
   \<and> (case rasterize_element zex_probe (fieldsOf (fst zex_after)) (snd zex_after) of
         Inl e \<Rightarrow> False
       | Inr (l', g1, pend) \<Rightarrow>
           map_option (\<lambda>hs. hs ! 0) (map_of (states l') []) = Some \<lparr>texture = None, sbounds = Some (mk_bounds 20 10 0 100)\<rparr>
           \<and> pend = [])"
proof -
  let ?l = "fieldsOf (fst zex_after)" and ?g = "snd zex_after"
  let ?hs = "[\<lparr>texture = None, sbounds = Some (mk_bounds 20 10 0 100)\<rparr>]"
  have ret: "result_of (refresh 3 False ex_doc None (fst zex_start) (snd zex_start)) \<noteq> None"
    by code_simp
  then obtain t' g' where
    r: "result_of (refresh 3 False ex_doc None (fst zex_start) (snd zex_start)) = Some (t', g')"
    by auto
  have r': "refresh (Suc (Suc (Suc 0))) False ex_doc None (fst zex_start) (snd zex_start) = Some (Inr (t', g'))"
    using result_ofD[OF r] unfolding numeral_3_eq_3 .
  have z: "zero_size (elBounds (elems (snd zex_start) (element (fieldsOf (fst zex_start)))))"
    by code_simp
  have d: "distinct (map fst (states ?l))" by code_simp
  have m: "map_of (states ?l) [] = Some ?hs" by code_simp
  have zp: "zero_size (zex_probe [] 0)" by code_simp
  have tot: "\<forall>(k, hs) \<in> set (states ?l). \<forall>h \<in> set (hover_range (hoverDepth ?l)). h < length hs"
    by code_simp
  have 1: "contentTargetOpacity (fieldsOf t') = 0"
    by (rule zero_bounds_invisible[THEN conjunct1, THEN mp]) (rule conjI[OF r' z])
  have "\<exists>r. rasterize_element zex_probe ?l ?g = Inr r"
    by (rule zero_bounds_invisible[THEN conjunct2, THEN conjunct2, THEN mp]) (rule tot)
  then obtain q where "rasterize_element zex_probe ?l ?g = Inr q" by blast
  then obtain l' g1 pend where
    re: "rasterize_element zex_probe ?l ?g = Inr (l', g1, pend)" by (cases q) auto
  have 2: "(\<exists>hs'. map_of (states l') [] = Some hs' \<and> hs' ! 0 = ?hs ! 0) \<and> (\<forall>x. ([], 0, x) \<notin> set pend)"
    by (rule zero_bounds_invisible[THEN conjunct2, THEN conjunct1, THEN mp])
       (rule conjI[OF re conjI[OF d conjI[OF m zp]]])
  have 3: "case rasterize_element zex_probe ?l ?g of Inl e \<Rightarrow> False | Inr (l', g1, pend) \<Rightarrow> pend = []"
    by code_simp
  from 3 have 4: "pend = []" unfolding re by simp
  from 2 obtain hs' where h: "map_of (states l') [] = Some hs'" "hs' ! 0 = ?hs ! 0" by blast
  show ?thesis unfolding r re using 1 4 h by simp
qed

text \<open>
  C9, evaluated where the code fails. A root whose element declares a state is updated
  once, which returns; the declaration is removed before the state was rasterized, and
  the next \<^verbatim>\<open>update\<close> throws a TypeError from \<^verbatim>\<open>_updateState\<close>, which calls
  \<^verbatim>\<open>dispose\<close> on a texture that is still \<^verbatim>\<open>null\<close>.
\<close>

theorem update_throws_on_unrasterized_state:
  "thrown (update 3 1 [] bex_doc (fst bex_start) (snd bex_start)) = None
   \<and> thrown (case update 3 1 [] bex_doc (fst bex_start) (snd bex_start) of
        Some (Inr (t1, g1)) \<Rightarrow> update 3 1 [] bex_doc t1 (drop_states_attr 10 g1)
      | r \<Rightarrow> None) = Some TypeError"
  by code_simp








text \<open>
  C3. \<^verbatim>\<open>_markForRemoval\<close> marks the layer and every layer below it. No operation
  takes the mark back: after \<^verbatim>\<open>refresh\<close>, mutation processing, rasterization with its
  commit, and the interaction step of \<^verbatim>\<open>update\<close>, every layer is still in the tree and
  marked if it was; the transition changes no mark, layers can only leave the tree in
  it; and a layer removes itself in the transition only when its opacity, after the
  step, is 0 or below 0.005.
\<close>

theorem removal_is_monotone:
  "list_all needsRemoval (layers_of (markForRemoval t0))
   \<and> (refresh n force doc parent t g = Some (Inr (t1, g1)) \<longrightarrow> persists t t1)
   \<and> persists t (processMutations doc g records t)
   \<and> (rasterize probe records doc i t g = Inr (t2, g2, pend)
        \<longrightarrow> persists t t2 \<and> persists t2 (rasterize_commit pend i t2))
   \<and> (updateInteractions rays doc t g = (t3, g3) \<longrightarrow> persists t t3)
   \<and> stems_from (fst (traverse_transition alpha t)) t
   \<and> (snd (traverse_transition alpha t)
        \<longrightarrow> isHidden (transitionVisibility alpha (transitionLayout alpha (fieldsOf t))))"
proof (intro conjI impI)
  show "list_all needsRemoval (layers_of (markForRemoval t0))" by (rule markForRemoval_all)
  show "persists t (processMutations doc g records t)" by (rule persists_processMutations)
  show "stems_from (fst (traverse_transition alpha t)) t" by (rule traverse_transition_stems)
next
  assume "refresh n force doc parent t g = Some (Inr (t1, g1))"
  then show "persists t t1" by (rule persists_refresh)
next
  assume "rasterize probe records doc i t g = Inr (t2, g2, pend)"
  then show "persists t t2" by (rule persists_rasterize)
next
  show "persists t2 (rasterize_commit pend i t2)" by (rule persists_rasterize_commit)
next
  assume "updateInteractions rays doc t g = (t3, g3)"
  then show "persists t t3" by (rule persists_updateInteractions)
next
  assume a: "snd (traverse_transition alpha t)"
  obtain f cs where t: "t = Layer f cs" by (cases t)
  from a show "isHidden (transitionVisibility alpha (transitionLayout alpha (fieldsOf t)))"
    unfolding t traverse_transition_removed by simp
qed

theorem removal_is_monotone_witness:
  "list_all needsRemoval (layers_of (markForRemoval (fst ex_after)))
   \<and> (case result_of (refresh 3 False ex_doc None marked_tree (snd ex_after)) of
         None \<Rightarrow> False | Some (t1, g1) \<Rightarrow> flagged 7 t1)
   \<and> (case rasterize raster_probe [] ex_doc 7 marked_tree (snd ex_after) of
         Inl e \<Rightarrow> False | Inr (t2, g2, pend) \<Rightarrow> flagged 7 (rasterize_commit pend 7 t2))
   \<and> flagged 7 (fst (updateInteractions [] ex_doc marked_tree (snd ex_after)))
   \<and> isHidden (transitionVisibility 0 (transitionLayout 0 (fieldsOf marked_child)))"
proof -
  note m = removal_is_monotone[where ?t0.0="fst ex_after" and t=marked_tree and g="snd ex_after"
      and doc=ex_doc and alpha=0]
  have fl: "flagged 7 marked_tree" by code_simp
  have 1: "list_all needsRemoval (layers_of (markForRemoval (fst ex_after)))"
    by (rule m[THEN conjunct1])
  have "result_of (refresh 3 False ex_doc None marked_tree (snd ex_after)) \<noteq> None" by code_simp
  then obtain t1 g1 where r: "result_of (refresh 3 False ex_doc None marked_tree (snd ex_after)) = Some (t1, g1)"
    by auto
  have "persists marked_tree t1"
    by (rule m[THEN conjunct2, THEN conjunct1, THEN mp]) (rule result_ofD[OF r])
  then have 2: "flagged 7 t1" using fl by (rule persists_flagged)
  have "case rasterize raster_probe [] ex_doc 7 marked_tree (snd ex_after) of
         Inl e \<Rightarrow> False | Inr q \<Rightarrow> True" by code_simp
  then obtain t2 g2 pend where
    ra: "rasterize raster_probe [] ex_doc 7 marked_tree (snd ex_after) = Inr (t2, g2, pend)"
    by (auto split: sum.splits)
  have "persists marked_tree t2 \<and> persists t2 (rasterize_commit pend 7 t2)"
    by (rule m[THEN conjunct2, THEN conjunct2, THEN conjunct2, THEN conjunct1, THEN mp]) (rule ra)
  then have 3: "flagged 7 (rasterize_commit pend 7 t2)"
    using fl by (auto intro: persists_flagged)
  obtain t3 g3 where ui: "updateInteractions [] ex_doc marked_tree (snd ex_after) = (t3, g3)"
    by (cases "updateInteractions [] ex_doc marked_tree (snd ex_after)")
  have "persists marked_tree t3"
    by (rule m[THEN conjunct2, THEN conjunct2, THEN conjunct2, THEN conjunct2, THEN conjunct1, THEN mp])
       (rule ui)
  then have 4: "flagged 7 t3" using fl by (rule persists_flagged)
  have s: "snd (traverse_transition 0 marked_child)" by code_simp
  have 5: "isHidden (transitionVisibility 0 (transitionLayout 0 (fieldsOf marked_child)))"
    by (rule removal_is_monotone[where t=marked_child and alpha=0, THEN conjunct2, THEN conjunct2,
          THEN conjunct2, THEN conjunct2, THEN conjunct2, THEN conjunct2, THEN mp]) (rule s)
  show ?thesis unfolding r ra ui using 1 2 3 4 5 by simp
qed




text \<open>
  C7. A tree with no layer waiting for rasterization, and in it a layer (the one found
  by its id, which its element carries) that has the declared state \<open>s\<close> as its class
  and current state and a state cache that holds the declared states. The class is
  switched to the default state and back to \<open>s\<close>, each switch followed by its class
  record and a \<^verbatim>\<open>refresh\<close> of the root. Then the layer is in the default state after the
  first switch and in \<open>s\<close> after the second, its texture getter returns what it
  returned before, the textures of its cache are the same, the rasterization queue is
  as it was and no layer has \<^verbatim>\<open>needsRasterize\<close> set.
\<close>

theorem state_round_trip:
  assumes "\<forall>l \<in> set (layers_of t). \<not> needsRasterize l"
    and "lookup_layer i t = Some f"
    and "fst ` set (states f) = set (declared_states (elems g (element f)))"
    and "layerAttr (elems g (element f)) = Some (Some i)"
    and "s \<in> set (declared_states (elems g (element f)))" and "s \<noteq> []"
    and "classAttr (elems g (element f)) = Some s" and "state f = s"
    and "switch_class doc n1 (element f) (Some []) (t, g) = Some (Inr (t1, g1))"
    and "switch_class doc n2 (element f) (Some s) (t1, g1) = Some (Inr (t2, g2))"
  shows "\<exists>f1 f2. lookup_layer i t1 = Some f1 \<and> state f1 = []
           \<and> lookup_layer i t2 = Some f2 \<and> state f2 = s
           \<and> texture_getter f2 = texture_getter f
           \<and> texture_cache f2 = texture_cache f
           \<and> queue g1 = queue g \<and> queue g2 = queue g
           \<and> (\<forall>l \<in> set (layers_of t1). \<not> needsRasterize l)
           \<and> (\<forall>l \<in> set (layers_of t2). \<not> needsRasterize l)"
proof -
  let ?e = "element f"
  have i: "lid f = i" using assms(2) unfolding lookup_layer_def by (auto simp: find_Some_iff)
  have lk: "lookup_layer (lid f) t = Some f" unfolding i by (rule assms(2))
  have la: "layerAttr (elems g ?e) = Some (Some (lid f))" unfolding i by (rule assms(4))
  from switch_step[OF assms(1) lk assms(3) la assms(5,6,7) _ _ assms(9)] obtain f1 where
    1: "lookup_layer (lid f) t1 = Some f1" "state f1 = []"
      "texture_cache f1 = texture_cache f" "hover f1 = hover f" "lid f1 = lid f"
      "element f1 = ?e" "map fst (states f1) = map fst (states f)"
      "queue g1 = queue g" "elems g1 = elems (set_class ?e (Some []) g)"
      "\<forall>l \<in> set (layers_of t1). \<not> needsRasterize l"
    by auto
  have el1: "elems g1 (element f1) = (elems g ?e)\<lparr>classAttr := Some []\<rparr>"
    unfolding 1(6) 1(9) by (simp add: set_class_def)
  have d1: "declared_states (elems g1 (element f1)) = declared_states (elems g ?e)"
    unfolding el1 by (rule declared_states_class)
  have "fst ` set (states f1) = fst ` set (states f)"
    using 1(7) by (metis set_map)
  then have sy1: "fst ` set (states f1) = set (declared_states (elems g1 (element f1)))"
    unfolding d1 using assms(3) by simp
  have la1: "layerAttr (elems g1 (element f1)) = Some (Some (lid f1))"
    unfolding el1 using la 1(5) by simp
  have sd1: "s \<in> set (declared_states (elems g1 (element f1)))" unfolding d1 by (rule assms(5))
  have old1: "classAttr (elems g1 (element f1)) = Some []" unfolding el1 by simp
  have lk1: "lookup_layer (lid f1) t1 = Some f1" unfolding 1(5) by (rule 1(1))
  have sw2: "switch_class doc n2 (element f1) (Some s) (t1, g1) = Some (Inr (t2, g2))"
    using assms(10) 1(6) by simp
  from switch_step[OF 1(10) lk1 sy1 la1 sd1 assms(6) old1 _ _ sw2] obtain f2 where
    2: "lookup_layer (lid f1) t2 = Some f2" "state f2 = s"
      "texture_cache f2 = texture_cache f1" "hover f2 = hover f1"
      "queue g2 = queue g1" "\<forall>l \<in> set (layers_of t2). \<not> needsRasterize l"
    by auto
  have tc: "texture_cache f2 = texture_cache f" using 2(3) 1(3) by simp
  have hv: "hover f2 = hover f" using 2(4) 1(4) by simp
  have tg: "texture_getter f2 = texture_getter f"
    by (rule texture_getter_by_cache[OF tc _ hv]) (simp add: 2(2) assms(8))
  have l1: "lookup_layer i t1 = Some f1" using 1(1) i by simp
  have l2: "lookup_layer i t2 = Some f2" using 2(1) 1(5) i by simp
  have q2: "queue g2 = queue g" using 2(5) 1(8) by simp
  show ?thesis using l1 1(2) l2 2(2) tg tc 1(8) q2 1(10) 2(6) by blast
qed

theorem state_round_trip_witness:
  "rt_view rt_start = (Some (''a'', Inr (Some 1)), [], [False, False])
   \<and> rt_view rt_mid = (Some ([], Inr (Some 2)), [], [False, False])
   \<and> map_option rt_view (result_of (switch_class ex_doc 3 11 (Some ''a'') rt_mid))
       = Some (Some (''a'', Inr (Some 1)), [], [False, False])"
proof -
  let ?t = "fst rt_start" and ?g = "snd rt_start"
  let ?f = "the (lookup_layer 7 ?t)"
  have v0: "rt_view rt_start = (Some (''a'', Inr (Some 1)), [], [False, False])" by code_simp
  have vm: "rt_view rt_mid = (Some ([], Inr (Some 2)), [], [False, False])" by code_simp
  have "list_all (\<lambda>l. \<not> needsRasterize l) (layers_of ?t)" by code_simp
  then have a1: "\<forall>l \<in> set (layers_of ?t). \<not> needsRasterize l" by (simp add: list_all_iff)
  have "lookup_layer 7 ?t \<noteq> None" by code_simp
  then have a2: "lookup_layer 7 ?t = Some ?f" by simp
  have a3: "fst ` set (states ?f) = set (declared_states (elems ?g (element ?f)))" by code_simp
  have a4: "layerAttr (elems ?g (element ?f)) = Some (Some 7)" by code_simp
  have a5: "''a'' \<in> set (declared_states (elems ?g (element ?f)))" by code_simp
  have a6: "''a'' \<noteq> []" by simp
  have a7: "classAttr (elems ?g (element ?f)) = Some ''a''" by code_simp
  have a8: "state ?f = ''a''" by code_simp
  have e: "element ?f = 11" by code_simp
  have tg: "texture_getter ?f = Inr (Some 1)" by code_simp
  have q: "queue ?g = []" by code_simp
  have "result_of (switch_class ex_doc 3 11 (Some []) rt_start) \<noteq> None" by code_simp
  then obtain t1 g1 where r1: "result_of (switch_class ex_doc 3 11 (Some []) rt_start) = Some (t1, g1)"
    by auto
  have m: "rt_mid = (t1, g1)" unfolding rt_mid_def r1 by simp
  have s1: "switch_class ex_doc 3 (element ?f) (Some []) (?t, ?g) = Some (Inr (t1, g1))"
    unfolding e using result_ofD[OF r1] by simp
  have "result_of (switch_class ex_doc 3 11 (Some ''a'') rt_mid) \<noteq> None" by code_simp
  then obtain t2 g2 where r2: "result_of (switch_class ex_doc 3 11 (Some ''a'') rt_mid) = Some (t2, g2)"
    by auto
  have s2: "switch_class ex_doc 3 (element ?f) (Some ''a'') (t1, g1) = Some (Inr (t2, g2))"
    unfolding e using result_ofD[OF r2] unfolding m .
  from state_round_trip[OF a1 a2 a3 a4 a5 a6 a7 a8 s1 s2] obtain f2 where
    2: "lookup_layer 7 t2 = Some f2" "state f2 = ''a''" "texture_getter f2 = texture_getter ?f"
      "queue g2 = queue ?g" "\<forall>l \<in> set (layers_of t2). \<not> needsRasterize l" by blast
  have len: "length (layers_of t2) = 2"
  proof -
    have "map_option (\<lambda>x. length (layers_of (fst x)))
            (result_of (switch_class ex_doc 3 11 (Some ''a'') rt_mid)) = Some 2" by code_simp
    then show ?thesis unfolding r2 by simp
  qed
  have fl: "flags t2 = [False, False]"
    unfolding flags_def map_all_False[OF 2(5)] len by (simp add: numeral_2_eq_2)
  have "rt_view (t2, g2) = (Some (''a'', Inr (Some 1)), [], [False, False])"
    unfolding rt_view_def using 2(1,2,3,4) tg q fl by simp
  then show ?thesis using v0 vm unfolding r2 by simp
qed

end
